theory Spec2Isabelle
  imports Main
begin

section \<open>Python values\<close>

text \<open>
  The script \<^verbatim>\<open>convert_svm.py\<close> loads a fitted support-vector classifier, collects
  eight of its attributes in a dict, writes the dict with \<^verbatim>\<open>json.dump\<close> and prints a
  message. The values that flow through it are Python objects.

  A Python float is an IEEE double: a finite number, an infinity or a NaN. The finite
  doubles are the type parameter \<open>'f\<close>; their shortest decimal text
  (\<^verbatim>\<open>float.__repr__\<close>) is a parameter \<open>frepr\<close> of the encoder.
  A Python \<^verbatim>\<open>str\<close> is a \<open>string\<close>, each \<open>char\<close> a code point below 256.
  A dict is an association list, since a dict keeps the order of insertion and the
  encoder writes the items in that order. \<open>PObject\<close> stands for every object the JSON
  encoder has no case for (a callable kernel, a numpy scalar that is no subclass of
  \<^verbatim>\<open>int\<close> or \<^verbatim>\<open>float\<close>).
\<close>

datatype 'f pyfloat = Finite 'f | PosInf | NegInf | NaN

datatype 'f pyval =
    PNone
  | PBool bool
  | PInt int
  | PFloat "'f pyfloat"
  | PStr string
  | PList "'f pyval list"
  | PDict "(string \<times> 'f pyval) list"
  | PObject

datatype error = FileNotFoundError | UnpicklingError | PermissionError | TypeError

section \<open>numpy arrays and \<^verbatim>\<open>tolist\<close>\<close>

text \<open>
  An n-dimensional array is its shape and its elements in row-major order; it holds
  as many elements as the product of its shape says.
\<close>

record 'a ndarray =
  shape :: "nat list"
  data :: "'a list"

definition wf_ndarray :: "'a ndarray \<Rightarrow> bool" where
  "wf_ndarray a = (length (data a) = prod_list (shape a))"

text \<open>
  \<^verbatim>\<open>ndarray.tolist()\<close> returns the data as nested lists, one level for each axis, each
  element converted to the Python scalar of the same value (\<open>item\<close>); an array of no
  axis gives the scalar itself. The empty case of the first equation is never reached on
  an array that satisfies \<open>wf_ndarray\<close>.
\<close>

fun nested :: "('a \<Rightarrow> 'f pyval) \<Rightarrow> nat list \<Rightarrow> 'a list \<Rightarrow> 'f pyval" where
  "nested item [] xs = (case xs of [] \<Rightarrow> PNone | x # _ \<Rightarrow> item x)"
| "nested item (n # ns) xs =
     PList (map (\<lambda>i. nested item ns (take (prod_list ns) (drop (i * prod_list ns) xs))) [0..<n])"

definition tolist :: "('a \<Rightarrow> 'f pyval) \<Rightarrow> 'a ndarray \<Rightarrow> 'f pyval" where
  "tolist item a = nested item (shape a) (data a)"

text \<open>
  What it is for a Python value to be the list form of an array, said without
  \<^verbatim>\<open>tolist\<close>. \<open>item_at v [i, j]\<close> is Python's \<^verbatim>\<open>v[i][j]\<close>, on lists and within their
  lengths. \<open>in_shape idx ns\<close>: \<open>idx\<close> is an index of an array of shape \<open>ns\<close>, one
  number for each axis, each below the length of its axis. \<open>offset idx ns\<close> is the place
  of the element \<^verbatim>\<open>a[i, j]\<close> in the row-major data. \<open>nested_as ns v\<close>: \<open>v\<close> is nested as
  deep as \<open>ns\<close> is long, a list of the length of the axis at each level and a scalar at
  the bottom.
\<close>

fun item_at :: "'f pyval \<Rightarrow> nat list \<Rightarrow> 'f pyval option" where
  "item_at v [] = Some v"
| "item_at (PList vs) (i # idx) = (if i < length vs then item_at (vs ! i) idx else None)"
| "item_at v (i # idx) = None"

fun in_shape :: "nat list \<Rightarrow> nat list \<Rightarrow> bool" where
  "in_shape [] [] = True"
| "in_shape (i # idx) (n # ns) = (i < n \<and> in_shape idx ns)"
| "in_shape idx ns = False"

fun offset :: "nat list \<Rightarrow> nat list \<Rightarrow> nat" where
  "offset (i # idx) (n # ns) = i * prod_list ns + offset idx ns"
| "offset idx ns = 0"

fun is_scalar :: "'f pyval \<Rightarrow> bool" where
  "is_scalar (PList vs) = False"
| "is_scalar (PDict kvs) = False"
| "is_scalar v = True"

fun nested_as :: "nat list \<Rightarrow> 'f pyval \<Rightarrow> bool" where
  "nested_as [] v = is_scalar v"
| "nested_as (n # ns) (PList vs) = (length vs = n \<and> list_all (nested_as ns) vs)"
| "nested_as (n # ns) v = False"

text \<open>
  \<open>list_form item a v\<close>: the value \<open>v\<close> is the array \<open>a\<close> as nested lists, and nothing
  else. It has the nesting of the shape of \<open>a\<close>, and at every index of \<open>a\<close> it holds the
  element that \<open>a\<close> holds there, as the Python scalar \<open>item\<close> makes of it.
\<close>

definition list_form :: "('a \<Rightarrow> 'f pyval) \<Rightarrow> 'a ndarray \<Rightarrow> 'f pyval \<Rightarrow> bool" where
  "list_form item a v =
     (nested_as (shape a) v \<and>
      (\<forall>idx. in_shape idx (shape a) \<longrightarrow>
         item_at v idx = Some (item (data a ! offset idx (shape a)))))"

section \<open>The fitted classifier and the exported record\<close>

text \<open>
  The attributes of \<^verbatim>\<open>sklearn.svm.SVC\<close> that the script reads. The three fitted float
  arrays and the two fitted integer arrays are numpy arrays; \<^verbatim>\<open>gamma\<close>, \<^verbatim>\<open>C\<close> and
  \<^verbatim>\<open>kernel\<close> are the constructor's arguments, kept as given (a float or the string
  \<^verbatim>\<open>'scale'\<close>, a float, a string or a callable). An Isabelle name cannot end with an
  underscore, so the fitted attribute \<^verbatim>\<open>support_vectors_\<close> is the field
  \<open>support_vectors_attr\<close>, and so on.
\<close>

record 'f svc =
  support_vectors_attr :: "'f pyfloat ndarray"
  dual_coef_attr :: "'f pyfloat ndarray"
  intercept_attr :: "'f pyfloat ndarray"
  gamma :: "'f pyval"
  C :: "'f pyval"
  kernel :: "'f pyval"
  support_attr :: "int ndarray"
  n_support_attr :: "int ndarray"

text \<open>Lines 11 to 20 of the script: the dict literal, in the order it is written.\<close>

definition model_data :: "'f svc \<Rightarrow> (string \<times> 'f pyval) list" where
  "model_data svm_model =
     [(''support_vectors'', tolist PFloat (support_vectors_attr svm_model)),
      (''dual_coef'', tolist PFloat (dual_coef_attr svm_model)),
      (''intercept'', tolist PFloat (intercept_attr svm_model)),
      (''gamma'', gamma svm_model),
      (''C'', C svm_model),
      (''kernel'', kernel svm_model),
      (''support'', tolist PInt (support_attr svm_model)),
      (''n_support'', tolist PInt (n_support_attr svm_model))]"

text \<open>A fitted classifier's arrays hold as many elements as their shapes say.\<close>

definition wf_svc :: "'f svc \<Rightarrow> bool" where
  "wf_svc m =
     (wf_ndarray (support_vectors_attr m) \<and> wf_ndarray (dual_coef_attr m) \<and>
      wf_ndarray (intercept_attr m) \<and> wf_ndarray (support_attr m) \<and> wf_ndarray (n_support_attr m))"

section \<open>The JSON encoder\<close>

text \<open>
  \<^verbatim>\<open>json.dump(obj, fp)\<close> with its default arguments: \<^verbatim>\<open>ensure_ascii=True\<close>,
  \<^verbatim>\<open>allow_nan=True\<close>, separators \<^verbatim>\<open>', '\<close> and \<^verbatim>\<open>': '\<close>, no indentation, keys in the
  dict's own order.
\<close>

text \<open>\<^verbatim>\<open>int.__repr__\<close>: decimal digits, a minus sign before a negative number.\<close>

definition digit_char :: "nat \<Rightarrow> char" where
  "digit_char d = char_of (48 + d)"

fun show_nat :: "nat \<Rightarrow> string" where
  "show_nat n = (if n < 10 then [digit_char n] else show_nat (n div 10) @ [digit_char (n mod 10)])"

declare show_nat.simps [simp del]

definition intstr :: "int \<Rightarrow> string" where
  "intstr i = (if i < 0 then CHR ''-'' # show_nat (nat (- i)) else show_nat (nat i))"

text \<open>
  \<^verbatim>\<open>floatstr\<close> of \<^verbatim>\<open>json.encoder\<close>: a NaN and the infinities are written as the
  JavaScript names (\<^verbatim>\<open>allow_nan\<close> is true, so nothing is raised), every other float by
  \<^verbatim>\<open>float.__repr__\<close>.
\<close>

definition floatstr :: "('f \<Rightarrow> string) \<Rightarrow> 'f pyfloat \<Rightarrow> string" where
  "floatstr frepr o' =
     (case o' of
        NaN \<Rightarrow> ''NaN''
      | PosInf \<Rightarrow> ''Infinity''
      | NegInf \<Rightarrow> ''-Infinity''
      | Finite x \<Rightarrow> frepr x)"

text \<open>
  \<^verbatim>\<open>py_encode_basestring_ascii\<close>: the characters from the space to the tilde are kept,
  but for the quote and the backslash; the seven characters of \<^verbatim>\<open>ESCAPE_DCT\<close> get their
  two-character escapes, every other one \<^verbatim>\<open>\uXXXX\<close> with four lower-case hexadecimal
  digits. (Code points from 0x10000 on, which the source writes as a surrogate pair,
  are outside \<open>char\<close>.)
\<close>

definition hex_char :: "nat \<Rightarrow> char" where
  "hex_char d = (if d < 10 then char_of (48 + d) else char_of (87 + d))"

definition hex4 :: "nat \<Rightarrow> string" where
  "hex4 n = [hex_char (n div 4096 mod 16), hex_char (n div 256 mod 16),
             hex_char (n div 16 mod 16), hex_char (n mod 16)]"

definition escape_char :: "char \<Rightarrow> string" where
  "escape_char c =
     (if c = CHR 0x5C then [CHR 0x5C, CHR 0x5C]
      else if c = CHR 0x22 then [CHR 0x5C, CHR 0x22]
      else if c = CHR 0x08 then [CHR 0x5C, CHR ''b'']
      else if c = CHR 0x0C then [CHR 0x5C, CHR ''f'']
      else if c = CHR 0x0A then [CHR 0x5C, CHR ''n'']
      else if c = CHR 0x0D then [CHR 0x5C, CHR ''r'']
      else if c = CHR 0x09 then [CHR 0x5C, CHR ''t'']
      else if 32 \<le> (of_char c :: nat) \<and> (of_char c :: nat) \<le> 126 then [c]
      else CHR 0x5C # CHR ''u'' # hex4 (of_char c))"

definition encode_basestring_ascii :: "string \<Rightarrow> string" where
  "encode_basestring_ascii s = CHR 0x22 # concat (map escape_char s) @ [CHR 0x22]"

text \<open>
  \<^verbatim>\<open>_iterencode\<close>, \<^verbatim>\<open>_iterencode_list\<close> and \<^verbatim>\<open>_iterencode_dict\<close>. The source yields
  chunks of text, which \<^verbatim>\<open>json.dump\<close> writes one after the other; the model returns
  the chunks joined. An object with no encoding raises \<^verbatim>\<open>TypeError\<close> at the moment the
  generator reaches it: the result is the text yielded before, and the error. In a list
  the separator \<open>buf\<close> is \<^verbatim>\<open>'['\<close> before the first item and \<^verbatim>\<open>', '\<close> before the others;
  in a dict \<open>first\<close> tells whether a separator is due.
\<close>

fun iterencode :: "('f \<Rightarrow> string) \<Rightarrow> 'f pyval \<Rightarrow> string \<times> error option"
  and iterencode_list :: "('f \<Rightarrow> string) \<Rightarrow> string \<Rightarrow> 'f pyval list \<Rightarrow> string \<times> error option"
  and iterencode_dict ::
    "('f \<Rightarrow> string) \<Rightarrow> bool \<Rightarrow> (string \<times> 'f pyval) list \<Rightarrow> string \<times> error option"
where
  "iterencode frepr (PStr s) = (encode_basestring_ascii s, None)"
| "iterencode frepr PNone = (''null'', None)"
| "iterencode frepr (PBool b) = (if b then ''true'' else ''false'', None)"
| "iterencode frepr (PInt i) = (intstr i, None)"
| "iterencode frepr (PFloat x) = (floatstr frepr x, None)"
| "iterencode frepr (PList lst) =
     (if lst = [] then (''[]'', None) else iterencode_list frepr ''['' lst)"
| "iterencode frepr (PDict dct) =
     (if dct = [] then (''{}'', None)
      else (case iterencode_dict frepr True dct of (t, e) \<Rightarrow> (CHR ''{'' # t, e)))"
| "iterencode frepr PObject = ([], Some TypeError)"
| "iterencode_list frepr buf [] = ('']'', None)"
| "iterencode_list frepr buf (v # vs) =
     (case iterencode frepr v of
        (t, Some e) \<Rightarrow> (buf @ t, Some e)
      | (t, None) \<Rightarrow>
          (case iterencode_list frepr '', '' vs of (t', e) \<Rightarrow> (buf @ t @ t', e)))"
| "iterencode_dict frepr first [] = (''}'', None)"
| "iterencode_dict frepr first ((k, v) # kvs) =
     (case iterencode frepr v of
        (t, Some e) \<Rightarrow>
          ((if first then [] else '', '') @ encode_basestring_ascii k @ '': '' @ t, Some e)
      | (t, None) \<Rightarrow>
          (case iterencode_dict frepr False kvs of
             (t', e) \<Rightarrow>
               ((if first then [] else '', '') @ encode_basestring_ascii k @ '': '' @ t @ t', e)))"

section \<open>The world the script runs in\<close>

text \<open>
  The files by their paths, which paths can be opened for writing, the standard output,
  and the trace of what the script has done to the world so far.
\<close>

datatype event =
    EvLoad string
  | EvOpen string
  | EvWrite string string
  | EvClose string
  | EvPrint string

record world =
  files :: "string \<rightharpoonup> string"
  writable :: "string \<Rightarrow> bool"
  stdout :: string
  trace :: "event list"

text \<open>
  \<^verbatim>\<open>joblib.load(path)\<close>: a missing file raises \<^verbatim>\<open>FileNotFoundError\<close>; the bytes of an
  existing one are unpickled, which gives the model or raises. What the bytes mean is
  the parameter \<open>unpickle\<close>.
\<close>

definition joblib_load ::
  "(string \<Rightarrow> error + 'm) \<Rightarrow> string \<Rightarrow> world \<Rightarrow> (error + 'm) \<times> world" where
  "joblib_load unpickle path w =
     (case files w path of
        None \<Rightarrow> (Inl FileNotFoundError, w)
      | Some bytes \<Rightarrow> (unpickle bytes, w\<lparr>trace := trace w @ [EvLoad path]\<rparr>))"

text \<open>
  \<^verbatim>\<open>open(path, 'w')\<close>: raises if the path cannot be written, else creates the file or
  truncates the one that is there.
\<close>

definition open_w :: "string \<Rightarrow> world \<Rightarrow> error + world" where
  "open_w path w =
     (if writable w path
      then Inr (w\<lparr>files := (files w)(path \<mapsto> []), trace := trace w @ [EvOpen path]\<rparr>)
      else Inl PermissionError)"

definition file_write :: "string \<Rightarrow> string \<Rightarrow> world \<Rightarrow> world" where
  "file_write path text w =
     w\<lparr>files := (files w)(path \<mapsto> (case files w path of None \<Rightarrow> text | Some old \<Rightarrow> old @ text)),
       trace := trace w @ [EvWrite path text]\<rparr>"

definition file_close :: "string \<Rightarrow> world \<Rightarrow> world" where
  "file_close path w = w\<lparr>trace := trace w @ [EvClose path]\<rparr>"

text \<open>\<^verbatim>\<open>json.dump\<close>: what the encoder yields is written, also when it ends in an error.\<close>

definition json_dump ::
  "('f \<Rightarrow> string) \<Rightarrow> 'f pyval \<Rightarrow> string \<Rightarrow> world \<Rightarrow> (error + unit) \<times> world" where
  "json_dump frepr obj path w =
     (case iterencode frepr obj of
        (text, None) \<Rightarrow> (Inr (), file_write path text w)
      | (text, Some e) \<Rightarrow> (Inl e, file_write path text w))"

definition print :: "string \<Rightarrow> world \<Rightarrow> world" where
  "print msg w = w\<lparr>stdout := stdout w @ msg @ [CHR 0x0A], trace := trace w @ [EvPrint msg]\<rparr>"

section \<open>The script\<close>

text \<open>
  The script from its first line to its last. Nothing in it catches an exception: the
  first error ends the run and is its result. The \<^verbatim>\<open>with\<close> statement closes the file
  on both ways out of its body.
\<close>

definition convert_svm ::
  "(string \<Rightarrow> error + 'f svc) \<Rightarrow> ('f \<Rightarrow> string) \<Rightarrow> world \<Rightarrow> (error + unit) \<times> world" where
  "convert_svm unpickle frepr w =
     (case joblib_load unpickle ''svm_param.joblib'' w of
        (Inl e, w1) \<Rightarrow> (Inl e, w1)
      | (Inr svm_model, w1) \<Rightarrow>
          (case open_w ''svm_model.json'' w1 of
             Inl e \<Rightarrow> (Inl e, w1)
           | Inr w2 \<Rightarrow>
               (case json_dump frepr (PDict (model_data svm_model)) ''svm_model.json'' w2 of
                  (Inl e, w3) \<Rightarrow> (Inl e, file_close ''svm_model.json'' w3)
                | (Inr u, w3) \<Rightarrow>
                    (Inr (),
                     print ''SVM model converted to JSON format''
                       (file_close ''svm_model.json'' w3)))))"

text \<open>The success messages among the events of a world.\<close>

fun is_print :: "event \<Rightarrow> bool" where
  "is_print (EvPrint msg) = True"
| "is_print ev = False"

definition printed :: "world \<Rightarrow> event list" where
  "printed w = filter is_print (trace w)"

section \<open>Example inputs\<close>

text \<open>
  A small fitted classifier: three support vectors of two features, two of the first
  class and one of the second. Its floats have whole values, so a finite float is an
  \<open>int\<close> here, and \<open>repr_whole\<close> writes it as Python writes such a float
  (\<^verbatim>\<open>3.0\<close>). Two more models: one with a callable kernel, one whose intercept is
  a NaN.
\<close>

definition repr_whole :: "int \<Rightarrow> string" where
  "repr_whole i = intstr i @ ''.0''"

definition example_model :: "int svc" where
  "example_model =
     \<lparr>support_vectors_attr = \<lparr>shape = [3, 2], data = map Finite [1, 2, 3, 4, 5, 6]\<rparr>,
      dual_coef_attr = \<lparr>shape = [1, 3], data = map Finite [1, - 1, 1]\<rparr>,
      intercept_attr = \<lparr>shape = [1], data = [Finite 0]\<rparr>,
      gamma = PStr ''scale'', C = PFloat (Finite 1), kernel = PStr ''rbf'',
      support_attr = \<lparr>shape = [3], data = [0, 4, 7]\<rparr>,
      n_support_attr = \<lparr>shape = [2], data = [2, 1]\<rparr>\<rparr>"

definition nan_model :: "int svc" where
  "nan_model = example_model\<lparr>intercept_attr := \<lparr>shape = [1], data = [NaN]\<rparr>\<rparr>"

definition example_unpickle :: "string \<Rightarrow> error + int svc" where
  "example_unpickle bytes =
     (if bytes = ''pickled model'' then Inr example_model
      else if bytes = ''pickled model, callable kernel'' then Inr (example_model\<lparr>kernel := PObject\<rparr>)
      else if bytes = ''pickled model, NaN intercept'' then Inr nan_model
      else Inl UnpicklingError)"

definition example_world :: "string \<Rightarrow> bool \<Rightarrow> world" where
  "example_world bytes can_write =
     \<lparr>files = [''svm_param.joblib'' \<mapsto> bytes, ''svm_model.json'' \<mapsto> ''old''],
      writable = (\<lambda>p. can_write), stdout = [], trace = []\<rparr>"

section \<open>Standard JSON\<close>

text \<open>
  What the specification calls standard JSON is the grammar of RFC 8259. The recogniser
  below reads a text character by character and keeps the containers it is inside of on
  a stack.

  A number is an optional minus sign, an integer part (a zero, or a nonzero digit and
  more digits), an optional fraction (a point and digits) and an optional exponent
  (\<^verbatim>\<open>e\<close> or \<^verbatim>\<open>E\<close>, an optional sign, digits). \<open>num_step\<close> is the automaton of this
  grammar; a number may end in the states of \<open>num_final\<close>.
\<close>

definition is_digit :: "char \<Rightarrow> bool" where
  "is_digit c = (48 \<le> (of_char c :: nat) \<and> (of_char c :: nat) \<le> 57)"

definition is_hex :: "char \<Rightarrow> bool" where
  "is_hex c =
     (is_digit c \<or> 97 \<le> (of_char c :: nat) \<and> (of_char c :: nat) \<le> 102 \<or>
      65 \<le> (of_char c :: nat) \<and> (of_char c :: nat) \<le> 70)"

definition is_ws :: "char \<Rightarrow> bool" where
  "is_ws c = (c = CHR '' '' \<or> c = CHR 0x09 \<or> c = CHR 0x0A \<or> c = CHR 0x0D)"

datatype nstate = NStart | NMinus | NZero | NInt | NDot | NFrac | NE | NESign | NExp

fun num_step :: "nstate \<Rightarrow> char \<Rightarrow> nstate option" where
  "num_step NStart c =
     (if c = CHR ''-'' then Some NMinus else if c = CHR ''0'' then Some NZero
      else if is_digit c then Some NInt else None)"
| "num_step NMinus c =
     (if c = CHR ''0'' then Some NZero else if is_digit c then Some NInt else None)"
| "num_step NZero c =
     (if c = CHR ''.'' then Some NDot else if c = CHR ''e'' \<or> c = CHR ''E'' then Some NE
      else None)"
| "num_step NInt c =
     (if is_digit c then Some NInt else if c = CHR ''.'' then Some NDot
      else if c = CHR ''e'' \<or> c = CHR ''E'' then Some NE else None)"
| "num_step NDot c = (if is_digit c then Some NFrac else None)"
| "num_step NFrac c =
     (if is_digit c then Some NFrac else if c = CHR ''e'' \<or> c = CHR ''E'' then Some NE
      else None)"
| "num_step NE c =
     (if c = CHR ''+'' \<or> c = CHR ''-'' then Some NESign else if is_digit c then Some NExp
      else None)"
| "num_step NESign c = (if is_digit c then Some NExp else None)"
| "num_step NExp c = (if is_digit c then Some NExp else None)"

fun num_final :: "nstate \<Rightarrow> bool" where
  "num_final NZero = True"
| "num_final NInt = True"
| "num_final NFrac = True"
| "num_final NExp = True"
| "num_final q = False"

fun num_run :: "nstate \<Rightarrow> string \<Rightarrow> nstate option" where
  "num_run q [] = Some q"
| "num_run q (c # cs) = (case num_step q c of None \<Rightarrow> None | Some q' \<Rightarrow> num_run q' cs)"

definition json_number :: "string \<Rightarrow> bool" where
  "json_number s = (case num_run NStart s of None \<Rightarrow> False | Some q \<Rightarrow> num_final q)"

text \<open>
  The modes of the recogniser. \<open>Value\<close>: a value is due. \<open>ArrayFirst\<close>: after \<^verbatim>\<open>[\<close>, a
  value or \<^verbatim>\<open>]\<close> is due. \<open>ObjectFirst\<close>: after \<^verbatim>\<open>{\<close>, a key or \<^verbatim>\<open>}\<close> is due. \<open>Key\<close>:
  after a comma in an object, a key is due. \<open>Colon\<close>: after a key. \<open>After\<close>: a value
  has ended. \<open>InStr\<close>, \<open>Esc\<close>, \<open>Hex\<close>: inside a string, after a backslash, inside
  \<^verbatim>\<open>\uXXXX\<close> with so many digits to come; the flag tells a key from a value. \<open>Num\<close>:
  inside a number. \<open>Lit\<close>: inside \<^verbatim>\<open>true\<close>, \<^verbatim>\<open>false\<close> or \<^verbatim>\<open>null\<close>, with the
  characters that are still to come.
\<close>

datatype container = InArray | InObject

datatype mode =
    Value
  | ArrayFirst
  | ObjectFirst
  | Key
  | Colon
  | After
  | InStr bool
  | Esc bool
  | Hex bool nat
  | Num nstate
  | Lit string

type_synonym jstate = "mode \<times> container list"

text \<open>The beginning of a value.\<close>

definition value_step :: "container list \<Rightarrow> char \<Rightarrow> jstate option" where
  "value_step st c =
     (case num_step NStart c of
        Some q \<Rightarrow> Some (Num q, st)
      | None \<Rightarrow>
          if c = CHR 0x22 then Some (InStr False, st)
          else if c = CHR ''['' then Some (ArrayFirst, InArray # st)
          else if c = CHR ''{'' then Some (ObjectFirst, InObject # st)
          else if c = CHR ''t'' then Some (Lit ''rue'', st)
          else if c = CHR ''f'' then Some (Lit ''alse'', st)
          else if c = CHR ''n'' then Some (Lit ''ull'', st)
          else None)"

text \<open>What may follow a value: a comma or the end of the container the value is in.\<close>

definition after_step :: "container list \<Rightarrow> char \<Rightarrow> jstate option" where
  "after_step st c =
     (if is_ws c then Some (After, st)
      else if c = CHR '','' then
        (case st of
           [] \<Rightarrow> None
         | InArray # _ \<Rightarrow> Some (Value, st)
         | InObject # _ \<Rightarrow> Some (Key, st))
      else if c = CHR '']'' then
        (case st of InArray # st' \<Rightarrow> Some (After, st') | _ \<Rightarrow> None)
      else if c = CHR ''}'' then
        (case st of InObject # st' \<Rightarrow> Some (After, st') | _ \<Rightarrow> None)
      else None)"

fun step :: "jstate \<Rightarrow> char \<Rightarrow> jstate option" where
  "step (Value, st) c = (if is_ws c then Some (Value, st) else value_step st c)"
| "step (ArrayFirst, st) c =
     (if is_ws c then Some (ArrayFirst, st)
      else if c = CHR '']'' then after_step st c
      else value_step st c)"
| "step (ObjectFirst, st) c =
     (if is_ws c then Some (ObjectFirst, st)
      else if c = CHR ''}'' then after_step st c
      else if c = CHR 0x22 then Some (InStr True, st)
      else None)"
| "step (Key, st) c =
     (if is_ws c then Some (Key, st)
      else if c = CHR 0x22 then Some (InStr True, st)
      else None)"
| "step (Colon, st) c =
     (if is_ws c then Some (Colon, st)
      else if c = CHR '':'' then Some (Value, st)
      else None)"
| "step (After, st) c = after_step st c"
| "step (InStr k, st) c =
     (if c = CHR 0x22 then Some (if k then Colon else After, st)
      else if c = CHR 0x5C then Some (Esc k, st)
      else if 32 \<le> (of_char c :: nat) then Some (InStr k, st)
      else None)"
| "step (Esc k, st) c =
     (if c \<in> set [CHR 0x22, CHR 0x5C, CHR ''/'', CHR ''b'', CHR ''f'', CHR ''n'', CHR ''r'', CHR ''t'']
      then Some (InStr k, st)
      else if c = CHR ''u'' then Some (Hex k 4, st)
      else None)"
| "step (Hex k n, st) c =
     (if is_hex c then Some (if n \<le> 1 then InStr k else Hex k (n - 1), st) else None)"
| "step (Num q, st) c =
     (case num_step q c of
        Some q' \<Rightarrow> Some (Num q', st)
      | None \<Rightarrow> if num_final q then after_step st c else None)"
| "step (Lit [], st) c = None"
| "step (Lit (x # xs), st) c =
     (if c = x then Some (if xs = [] then After else Lit xs, st) else None)"

fun run :: "jstate \<Rightarrow> string \<Rightarrow> jstate option" where
  "run s [] = Some s"
| "run s (c # cs) = (case step s c of None \<Rightarrow> None | Some s' \<Rightarrow> run s' cs)"

text \<open>
  A state in which a value has just ended: after a string, a literal or a closing
  bracket, or inside a number that may end here.
\<close>

fun ended :: "container list \<Rightarrow> jstate \<Rightarrow> bool" where
  "ended st (After, st') = (st' = st)"
| "ended st (Num q, st') = (st' = st \<and> num_final q)"
| "ended st s = False"

text \<open>A JSON text is one value, with nothing open at its end.\<close>

definition json_text :: "string \<Rightarrow> bool" where
  "json_text s = (case run (Value, []) s of None \<Rightarrow> False | Some s' \<Rightarrow> ended [] s')"

text \<open>
  Three properties of a piece of text, for any stack of open containers. \<open>value_text\<close>:
  read where a value is due, the text is one value; it is read the same way as the
  first item of an array. \<open>array_rest\<close>: read after an item of an array, the text is
  the rest of the array up to its closing bracket. \<open>object_rest\<close>: the same for an
  object.
\<close>

definition value_text :: "string \<Rightarrow> bool" where
  "value_text t =
     (t \<noteq> [] \<and> (\<forall>st. \<exists>d. run (Value, st) t = Some d \<and> ended st d) \<and>
      (\<forall>st. run (ArrayFirst, st) t = run (Value, st) t))"

definition array_rest :: "string \<Rightarrow> bool" where
  "array_rest r = (\<forall>st d. ended (InArray # st) d \<longrightarrow> run d r = Some (After, st))"

definition object_rest :: "string \<Rightarrow> bool" where
  "object_rest r = (\<forall>st d. ended (InObject # st) d \<longrightarrow> run d r = Some (After, st))"

text \<open>Plain ASCII text: the same bytes in UTF-8 and in every encoding that extends ASCII.\<close>

definition is_ascii :: "string \<Rightarrow> bool" where
  "is_ascii s = (\<forall>c \<in> set s. (of_char c :: nat) < 128)"

section \<open>Finite floats\<close>

text \<open>A value, and a model, none of whose floats is a NaN or an infinity.\<close>

fun is_finite :: "'f pyfloat \<Rightarrow> bool" where
  "is_finite (Finite x) = True"
| "is_finite x = False"

fun finite_val :: "'f pyval \<Rightarrow> bool"
  and finite_vals :: "'f pyval list \<Rightarrow> bool"
  and finite_items :: "(string \<times> 'f pyval) list \<Rightarrow> bool"
where
  "finite_val (PFloat x) = is_finite x"
| "finite_val (PList vs) = finite_vals vs"
| "finite_val (PDict kvs) = finite_items kvs"
| "finite_val PNone = True"
| "finite_val (PBool b) = True"
| "finite_val (PInt i) = True"
| "finite_val (PStr s) = True"
| "finite_val PObject = True"
| "finite_vals [] = True"
| "finite_vals (v # vs) = (finite_val v \<and> finite_vals vs)"
| "finite_items [] = True"
| "finite_items ((k, v) # kvs) = (finite_val v \<and> finite_items kvs)"

definition finite_model :: "'f svc \<Rightarrow> bool" where
  "finite_model m =
     ((\<forall>x \<in> set (data (support_vectors_attr m)). is_finite x) \<and>
      (\<forall>x \<in> set (data (dual_coef_attr m)). is_finite x) \<and>
      (\<forall>x \<in> set (data (intercept_attr m)). is_finite x) \<and>
      finite_val (gamma m) \<and> finite_val (C m) \<and> finite_val (kernel m))"

section \<open>The text of the exported record\<close>

text \<open>
  The output file as the specification describes it: one object, the eight keys in the
  order of the record, each followed by the text of its value (\<open>json_of\<close>, what the
  encoder writes for the value), with the separators \<^verbatim>\<open>', '\<close> and \<^verbatim>\<open>': '\<close>.
\<close>

definition json_of :: "('f \<Rightarrow> string) \<Rightarrow> 'f pyval \<Rightarrow> string" where
  "json_of frepr v = fst (iterencode frepr v)"

definition record_text :: "('f \<Rightarrow> string) \<Rightarrow> 'f svc \<Rightarrow> string" where
  "record_text frepr m =
     ''{\"support_vectors\": '' @ json_of frepr (tolist PFloat (support_vectors_attr m)) @
     '', \"dual_coef\": '' @ json_of frepr (tolist PFloat (dual_coef_attr m)) @
     '', \"intercept\": '' @ json_of frepr (tolist PFloat (intercept_attr m)) @
     '', \"gamma\": '' @ json_of frepr (gamma m) @
     '', \"C\": '' @ json_of frepr (C m) @
     '', \"kernel\": '' @ json_of frepr (kernel m) @
     '', \"support\": '' @ json_of frepr (tolist PInt (support_attr m)) @
     '', \"n_support\": '' @ json_of frepr (tolist PInt (n_support_attr m)) @ ''}''"

section \<open>Reading the output file\<close>

text \<open>
  Modelled from the spec: the reader of the output file. The script only writes the
  file; the specification calls its content standard JSON and speaks of deserializing
  it. The reader is a parser of the JSON texts of RFC 8259, with the grammar of the
  recogniser above, which builds the Python value that the text denotes: an object is
  read as its members in their order, an array as a list, a number with a fraction or
  an exponent as a float and any other number as an integer.

  \<open>read_int\<close> is the value of an integer's decimal text.
\<close>

definition digit_val :: "char \<Rightarrow> nat" where
  "digit_val c = of_char c - 48"

fun read_nat :: "nat \<Rightarrow> string \<Rightarrow> nat" where
  "read_nat acc [] = acc"
| "read_nat acc (c # cs) = read_nat (10 * acc + digit_val c) cs"

definition read_int :: "string \<Rightarrow> int" where
  "read_int s =
     (case s of
        [] \<Rightarrow> 0
      | c # cs \<Rightarrow> if c = CHR ''-'' then - int (read_nat 0 cs) else int (read_nat 0 s))"

text \<open>
  Modelled from the spec: the value of a number's text. The double that a decimal text
  with a fraction or an exponent denotes is the parameter \<open>fparse\<close>.
\<close>

definition number_value :: "(string \<Rightarrow> 'f pyfloat) \<Rightarrow> string \<Rightarrow> 'f pyval" where
  "number_value fparse s =
     (if CHR ''.'' \<in> set s \<or> CHR ''e'' \<in> set s \<or> CHR ''E'' \<in> set s
      then PFloat (fparse s) else PInt (read_int s))"

text \<open>
  Modelled from the spec: the characters that the escapes of a string stand for. The
  code point of \<^verbatim>\<open>\uXXXX\<close> is read digit by digit.
\<close>

definition hex_val :: "char \<Rightarrow> nat" where
  "hex_val c =
     (if is_digit c then of_char c - 48
      else if 97 \<le> (of_char c :: nat) then of_char c - 87 else of_char c - 55)"

definition unescape :: "char \<Rightarrow> char option" where
  "unescape c =
     (if c = CHR 0x22 \<or> c = CHR 0x5C \<or> c = CHR ''/'' then Some c
      else if c = CHR ''b'' then Some (CHR 0x08)
      else if c = CHR ''f'' then Some (CHR 0x0C)
      else if c = CHR ''n'' then Some (CHR 0x0A)
      else if c = CHR ''r'' then Some (CHR 0x0D)
      else if c = CHR ''t'' then Some (CHR 0x09)
      else None)"

text \<open>
  Modelled from the spec: the state of the reader. For each container that is open, a
  frame holds the items read so far, and for an object the key of the member that is
  being read. The modes are those of the recogniser; inside a string and inside a
  number the mode holds the characters read so far, inside \<^verbatim>\<open>\uXXXX\<close> the number of
  digits to come and the code point so far, inside a literal the value it denotes. The
  third component of the state is the value of the whole text, once it has been read.
\<close>

datatype 'f frame =
    ArrayFrame "'f pyval list"
  | ObjectFrame "(string \<times> 'f pyval) list" string

datatype 'f pmode =
    PValue
  | PArrayFirst
  | PObjectFirst
  | PKey
  | PColon
  | PAfter
  | PStrIn bool string
  | PEsc bool string
  | PHex bool string nat nat
  | PNum nstate string
  | PLit string "'f pyval"

type_synonym 'f pstate = "'f pmode \<times> 'f frame list \<times> 'f pyval option"

text \<open>
  Modelled from the spec: a value that has been read goes to the container it is in,
  as its next item or as the value of the pending key; outside every container it is
  the value of the text.
\<close>

fun deliver :: "'f pyval \<Rightarrow> 'f frame list \<Rightarrow> 'f pyval option \<Rightarrow> 'f pstate" where
  "deliver v [] r = (PAfter, [], Some v)"
| "deliver v (ArrayFrame items # fs) r = (PAfter, ArrayFrame (items @ [v]) # fs, r)"
| "deliver v (ObjectFrame items k # fs) r = (PAfter, ObjectFrame (items @ [(k, v)]) k # fs, r)"

text \<open>
  Modelled from the spec: the steps of the reader, one character at a time, as the
  recogniser's. A character that the grammar does not allow ends the reading with no
  value. (A code point from 256 on is outside \<open>char\<close>.)
\<close>

definition pvalue_step :: "'f frame list \<Rightarrow> 'f pyval option \<Rightarrow> char \<Rightarrow> 'f pstate option" where
  "pvalue_step fs r c =
     (case num_step NStart c of
        Some q \<Rightarrow> Some (PNum q [c], fs, r)
      | None \<Rightarrow>
          if c = CHR 0x22 then Some (PStrIn False [], fs, r)
          else if c = CHR ''['' then Some (PArrayFirst, ArrayFrame [] # fs, r)
          else if c = CHR ''{'' then Some (PObjectFirst, ObjectFrame [] [] # fs, r)
          else if c = CHR ''t'' then Some (PLit ''rue'' (PBool True), fs, r)
          else if c = CHR ''f'' then Some (PLit ''alse'' (PBool False), fs, r)
          else if c = CHR ''n'' then Some (PLit ''ull'' PNone, fs, r)
          else None)"

definition pafter_step :: "'f frame list \<Rightarrow> 'f pyval option \<Rightarrow> char \<Rightarrow> 'f pstate option" where
  "pafter_step fs r c =
     (if is_ws c then Some (PAfter, fs, r)
      else if c = CHR '','' then
        (case fs of
           [] \<Rightarrow> None
         | ArrayFrame items # fs' \<Rightarrow> Some (PValue, fs, r)
         | ObjectFrame items k # fs' \<Rightarrow> Some (PKey, fs, r))
      else if c = CHR '']'' then
        (case fs of ArrayFrame items # fs' \<Rightarrow> Some (deliver (PList items) fs' r) | _ \<Rightarrow> None)
      else if c = CHR ''}'' then
        (case fs of ObjectFrame items k # fs' \<Rightarrow> Some (deliver (PDict items) fs' r) | _ \<Rightarrow> None)
      else None)"

fun pstep :: "(string \<Rightarrow> 'f pyfloat) \<Rightarrow> 'f pstate \<Rightarrow> char \<Rightarrow> 'f pstate option" where
  "pstep fparse (PValue, fs, r) c = (if is_ws c then Some (PValue, fs, r) else pvalue_step fs r c)"
| "pstep fparse (PArrayFirst, fs, r) c =
     (if is_ws c then Some (PArrayFirst, fs, r)
      else if c = CHR '']'' then pafter_step fs r c
      else pvalue_step fs r c)"
| "pstep fparse (PObjectFirst, fs, r) c =
     (if is_ws c then Some (PObjectFirst, fs, r)
      else if c = CHR ''}'' then pafter_step fs r c
      else if c = CHR 0x22 then Some (PStrIn True [], fs, r)
      else None)"
| "pstep fparse (PKey, fs, r) c =
     (if is_ws c then Some (PKey, fs, r)
      else if c = CHR 0x22 then Some (PStrIn True [], fs, r)
      else None)"
| "pstep fparse (PColon, fs, r) c =
     (if is_ws c then Some (PColon, fs, r)
      else if c = CHR '':'' then Some (PValue, fs, r)
      else None)"
| "pstep fparse (PAfter, fs, r) c = pafter_step fs r c"
| "pstep fparse (PStrIn k s, fs, r) c =
     (if c = CHR 0x22 then
        (if k then
           (case fs of
              ObjectFrame items k' # fs' \<Rightarrow> Some (PColon, ObjectFrame items s # fs', r)
            | _ \<Rightarrow> None)
         else Some (deliver (PStr s) fs r))
      else if c = CHR 0x5C then Some (PEsc k s, fs, r)
      else if 32 \<le> (of_char c :: nat) then Some (PStrIn k (s @ [c]), fs, r)
      else None)"
| "pstep fparse (PEsc k s, fs, r) c =
     (if c = CHR ''u'' then Some (PHex k s 4 0, fs, r)
      else (case unescape c of Some c' \<Rightarrow> Some (PStrIn k (s @ [c']), fs, r) | None \<Rightarrow> None))"
| "pstep fparse (PHex k s n acc, fs, r) c =
     (if is_hex c then
        (if n \<le> 1 then
           (if 16 * acc + hex_val c < 256
            then Some (PStrIn k (s @ [char_of (16 * acc + hex_val c)]), fs, r) else None)
         else Some (PHex k s (n - 1) (16 * acc + hex_val c), fs, r))
      else None)"
| "pstep fparse (PNum q s, fs, r) c =
     (case num_step q c of
        Some q' \<Rightarrow> Some (PNum q' (s @ [c]), fs, r)
      | None \<Rightarrow>
          if num_final q then
            (case deliver (number_value fparse s) fs r of (m, fs', r') \<Rightarrow> pafter_step fs' r' c)
          else None)"
| "pstep fparse (PLit [] v, fs, r) c = None"
| "pstep fparse (PLit (x # xs) v, fs, r) c =
     (if c = x then (if xs = [] then Some (deliver v fs r) else Some (PLit xs v, fs, r))
      else None)"

fun prun :: "(string \<Rightarrow> 'f pyfloat) \<Rightarrow> 'f pstate \<Rightarrow> string \<Rightarrow> 'f pstate option" where
  "prun fparse s [] = Some s"
| "prun fparse s (c # cs) =
     (case pstep fparse s c of None \<Rightarrow> None | Some s' \<Rightarrow> prun fparse s' cs)"

text \<open>
  Modelled from the spec: the value of a text. At the end of the text one value has
  been read and no container is open; a number that is the whole text ends with it.
\<close>

fun finish :: "(string \<Rightarrow> 'f pyfloat) \<Rightarrow> 'f pstate \<Rightarrow> 'f pyval option" where
  "finish fparse (PAfter, [], r) = r"
| "finish fparse (PNum q s, [], r) = (if num_final q then Some (number_value fparse s) else None)"
| "finish fparse s = None"

definition json_read :: "(string \<Rightarrow> 'f pyfloat) \<Rightarrow> string \<Rightarrow> 'f pyval option" where
  "json_read fparse t =
     (case prun fparse (PValue, [], None) t of None \<Rightarrow> None | Some s \<Rightarrow> finish fparse s)"

text \<open>
  The floats of the example models have whole values: \<open>parse_whole\<close> reads what
  \<open>repr_whole\<close> writes, the integer before the point.
\<close>

definition parse_whole :: "string \<Rightarrow> int pyfloat" where
  "parse_whole s = Finite (read_int (takeWhile (\<lambda>c. c \<noteq> CHR ''.'') s))"

text \<open>
  How the reader reads a piece of text, for every stack of open containers and whatever
  has been read before. \<open>pended\<close>: the value \<open>v\<close> has just ended; it has been put into its
  container, or it is a number whose text may still go on. \<open>reads_value\<close>: read where a
  value is due, the text is the value \<open>v\<close>. \<open>reads_array_rest\<close>: read after an item of an
  array, the text is the items \<open>vs\<close> that follow and the closing bracket.
  \<open>reads_object_rest\<close>: the same for the members of an object.
\<close>

definition pended ::
  "(string \<Rightarrow> 'f pyfloat) \<Rightarrow> 'f pyval \<Rightarrow> 'f frame list \<Rightarrow> 'f pyval option \<Rightarrow> 'f pstate \<Rightarrow> bool" where
  "pended fparse v fs r d =
     (d = deliver v fs r \<or>
      (\<exists>q s. d = (PNum q s, fs, r) \<and> num_final q \<and> number_value fparse s = v))"

definition reads_value :: "(string \<Rightarrow> 'f pyfloat) \<Rightarrow> string \<Rightarrow> 'f pyval \<Rightarrow> bool" where
  "reads_value fparse t v =
     (t \<noteq> [] \<and>
      (\<forall>fs r. \<exists>d. prun fparse (PValue, fs, r) t = Some d \<and> pended fparse v fs r d) \<and>
      (\<forall>fs r. prun fparse (PArrayFirst, fs, r) t = prun fparse (PValue, fs, r) t))"

definition reads_array_rest :: "(string \<Rightarrow> 'f pyfloat) \<Rightarrow> string \<Rightarrow> 'f pyval list \<Rightarrow> bool" where
  "reads_array_rest fparse t vs =
     (\<forall>fs r items v d. pended fparse v (ArrayFrame items # fs) r d \<longrightarrow>
        prun fparse d t = Some (deliver (PList (items @ v # vs)) fs r))"

definition reads_object_rest ::
  "(string \<Rightarrow> 'f pyfloat) \<Rightarrow> string \<Rightarrow> (string \<times> 'f pyval) list \<Rightarrow> bool" where
  "reads_object_rest fparse t kvs =
     (\<forall>fs r items k v d. pended fparse v (ObjectFrame items k # fs) r d \<longrightarrow>
        prun fparse d t = Some (deliver (PDict (items @ (k, v) # kvs)) fs r))"

text \<open>
  What the round trip needs of the floats: \<^verbatim>\<open>float.__repr__\<close> writes a finite float as
  a JSON number with a fraction or an exponent, and the reader's float parse gives the
  float back from it. (Python's \<^verbatim>\<open>repr\<close> writes the shortest decimal text that is read
  back as the same double.)
\<close>

definition float_round_trip :: "('f \<Rightarrow> string) \<Rightarrow> (string \<Rightarrow> 'f pyfloat) \<Rightarrow> bool" where
  "float_round_trip frepr fparse =
     (\<forall>x. json_number (frepr x) \<and> number_value fparse (frepr x) = PFloat (Finite x))"

section \<open>The five ways a run can go\<close>

lemmas script_defs = convert_svm_def joblib_load_def open_w_def json_dump_def file_write_def
  file_close_def print_def

lemma run_missing:
  "files w ''svm_param.joblib'' = None \<Longrightarrow>
   convert_svm unpickle frepr w = (Inl FileNotFoundError, w)"
  by (simp add: script_defs)

lemma run_unpickle_error:
  "files w ''svm_param.joblib'' = Some bytes \<Longrightarrow> unpickle bytes = Inl e \<Longrightarrow>
   convert_svm unpickle frepr w = (Inl e, w\<lparr>trace := trace w @ [EvLoad ''svm_param.joblib'']\<rparr>)"
  by (simp add: script_defs)

lemma run_open_error:
  "files w ''svm_param.joblib'' = Some bytes \<Longrightarrow> unpickle bytes = Inr m \<Longrightarrow>
   \<not> writable w ''svm_model.json'' \<Longrightarrow>
   convert_svm unpickle frepr w =
     (Inl PermissionError, w\<lparr>trace := trace w @ [EvLoad ''svm_param.joblib'']\<rparr>)"
  by (simp add: script_defs)

lemma run_dump_error:
  "files w ''svm_param.joblib'' = Some bytes \<Longrightarrow> unpickle bytes = Inr m \<Longrightarrow>
   writable w ''svm_model.json'' \<Longrightarrow>
   iterencode frepr (PDict (model_data m)) = (text, Some e) \<Longrightarrow>
   convert_svm unpickle frepr w =
     (Inl e, w\<lparr>files := (files w)(''svm_model.json'' \<mapsto> text),
               trace := trace w @ [EvLoad ''svm_param.joblib'', EvOpen ''svm_model.json'',
                 EvWrite ''svm_model.json'' text, EvClose ''svm_model.json'']\<rparr>)"
  by (simp add: script_defs del: iterencode.simps)

lemma run_success:
  "files w ''svm_param.joblib'' = Some bytes \<Longrightarrow> unpickle bytes = Inr m \<Longrightarrow>
   writable w ''svm_model.json'' \<Longrightarrow>
   iterencode frepr (PDict (model_data m)) = (text, None) \<Longrightarrow>
   convert_svm unpickle frepr w =
     (Inr (), w\<lparr>files := (files w)(''svm_model.json'' \<mapsto> text),
               stdout := stdout w @ ''SVM model converted to JSON format'' @ [CHR 0x0A],
               trace := trace w @ [EvLoad ''svm_param.joblib'', EvOpen ''svm_model.json'',
                 EvWrite ''svm_model.json'' text, EvClose ''svm_model.json'',
                 EvPrint ''SVM model converted to JSON format'']\<rparr>)"
  by (simp add: script_defs del: iterencode.simps)

lemma run_cases:
  obtains
    (missing) "files w ''svm_param.joblib'' = None"
  | (unpickle_error) bytes e where
      "files w ''svm_param.joblib'' = Some bytes" "unpickle bytes = Inl e"
  | (open_error) bytes m where
      "files w ''svm_param.joblib'' = Some bytes" "unpickle bytes = Inr m"
      "\<not> writable w ''svm_model.json''"
  | (dump_error) bytes m written e where
      "files w ''svm_param.joblib'' = Some bytes" "unpickle bytes = Inr m"
      "writable w ''svm_model.json''"
      "iterencode frepr (PDict (model_data m)) = (written, Some e)"
  | (success) bytes m written where
      "files w ''svm_param.joblib'' = Some bytes" "unpickle bytes = Inr m"
      "writable w ''svm_model.json''"
      "iterencode frepr (PDict (model_data m)) = (written, None)"
proof (cases "files w ''svm_param.joblib''")
  case None
  then show ?thesis by (rule missing)
next
  case (Some bytes)
  note present = this
  show ?thesis
  proof (cases "unpickle bytes")
    case (Inl e)
    with present show ?thesis by (rule unpickle_error)
  next
    case (Inr m)
    show ?thesis
    proof (cases "writable w ''svm_model.json''")
      case False
      with present Inr show ?thesis by (rule open_error)
    next
      case True
      obtain written err where enc: "iterencode frepr (PDict (model_data m)) = (written, err)"
        by (cases "iterencode frepr (PDict (model_data m))")
      show ?thesis
      proof (cases err)
        case None
        with present Inr True enc show ?thesis by (auto intro: success)
      next
        case (Some e)
        with present Inr True enc show ?thesis by (auto intro: dump_error)
      qed
    qed
  qed
qed

section \<open>\<^verbatim>\<open>tolist\<close> keeps the elements and the shape\<close>

lemma concat_chunks: "concat (map (\<lambda>i. take k (drop (i * k) xs)) [0..<n]) = take (n * k) xs"
proof (induction n)
  case 0
  show ?case by simp
next
  case (Suc n)
  have "take (n * k) xs @ take k (drop (n * k) xs) = take (n * k + k) xs"
    by (simp add: take_add)
  with Suc show ?case by (simp add: add.commute)
qed

lemma chunk_length:
  assumes "length xs = n * k" and "i < n"
  shows "length (take k (drop (i * k) xs)) = k"
proof -
  from \<open>i < n\<close> have "Suc i \<le> n" by simp
  then have "Suc i * k \<le> n * k" by (rule mult_le_mono1)
  then show ?thesis using assms(1) by simp
qed

lemma offset_less: "in_shape idx ns \<Longrightarrow> offset idx ns < prod_list ns"
proof (induction idx ns rule: in_shape.induct)
  case (2 i idx n ns)
  then have i: "i < n" and o: "offset idx ns < prod_list ns" by simp_all
  from i have "Suc i \<le> n" by simp
  then have "Suc i * prod_list ns \<le> n * prod_list ns" by (rule mult_le_mono1)
  with o show ?case by simp
qed simp_all

lemma nested_nested_as:
  assumes "\<And>x. is_scalar (item x)"
  shows "length xs = prod_list ns \<Longrightarrow> nested_as ns (nested item ns xs)"
proof (induction ns arbitrary: xs)
  case Nil
  then show ?case by (cases xs) (simp_all add: assms)
next
  case (Cons n ns)
  have "nested_as ns (nested item ns (take (prod_list ns) (drop (i * prod_list ns) xs)))"
    if "i < n" for i
    using Cons.prems that by (intro Cons.IH chunk_length [of xs n]) simp_all
  then show ?case by (simp add: list_all_iff)
qed

lemma nested_item_at:
  "length xs = prod_list ns \<Longrightarrow> in_shape idx ns \<Longrightarrow>
   item_at (nested item ns xs) idx = Some (item (xs ! offset idx ns))"
proof (induction idx ns arbitrary: xs rule: in_shape.induct)
  case 1
  then show ?case by (cases xs) simp_all
next
  case (2 i idx n ns)
  let ?k = "prod_list ns"
  from "2.prems" have i: "i < n" and sh: "in_shape idx ns" and len: "length xs = n * ?k"
    by simp_all
  have cl: "length (take ?k (drop (i * ?k) xs)) = ?k"
    by (rule chunk_length [OF len i])
  have o: "offset idx ns < ?k" by (rule offset_less [OF sh])
  have "item_at (nested item (n # ns) xs) (i # idx) =
      item_at (nested item ns (take ?k (drop (i * ?k) xs))) idx"
    using i by simp
  also have "\<dots> = Some (item (take ?k (drop (i * ?k) xs) ! offset idx ns))"
    by (rule "2.IH" [OF cl sh])
  also have "take ?k (drop (i * ?k) xs) ! offset idx ns = xs ! (i * ?k + offset idx ns)"
    using o cl by simp
  finally show ?case by simp
qed simp_all

lemma tolist_list_form:
  assumes "\<And>x. is_scalar (item x)" and "wf_ndarray a"
  shows "list_form item a (tolist item a)"
  using assms nested_nested_as [of item "data a" "shape a"]
    nested_item_at [of "data a" "shape a" _ item]
  by (simp add: list_form_def tolist_def wf_ndarray_def)

lemma nested_1d: "length ys = d \<Longrightarrow> nested item [d] ys = PList (map item ys)"
proof -
  assume len: "length ys = d"
  have "map (\<lambda>i. nested item [] (take 1 (drop i ys))) [0..<d] = map item ys"
  proof (rule nth_equalityI)
    show "length (map (\<lambda>i. nested item [] (take 1 (drop i ys))) [0..<d]) = length (map item ys)"
      using len by simp
  next
    fix i
    assume "i < length (map (\<lambda>i. nested item [] (take 1 (drop i ys))) [0..<d])"
    then have i: "i < d" by simp
    then have "drop i ys = ys ! i # drop (Suc i) ys"
      using len by (simp add: Cons_nth_drop_Suc)
    then show "map (\<lambda>i. nested item [] (take 1 (drop i ys))) [0..<d] ! i = map item ys ! i"
      using i len by simp
  qed
  then show ?thesis by simp
qed


lemma tolist_2d:
  assumes "shape a = [n, d]" and "wf_ndarray a"
  shows "tolist item a =
    PList (map (\<lambda>i. PList (map item (take d (drop (i * d) (data a))))) [0..<n])"
proof -
  have len: "length (data a) = n * d"
    using assms by (simp add: wf_ndarray_def)
  have "\<And>i. i < n \<Longrightarrow> nested item [d] (take d (drop (i * d) (data a))) =
      PList (map item (take d (drop (i * d) (data a))))"
    by (rule nested_1d) (rule chunk_length [OF len])
  then have "map (\<lambda>i. nested item [d] (take d (drop (i * d) (data a)))) [0..<n] =
      map (\<lambda>i. PList (map item (take d (drop (i * d) (data a))))) [0..<n]"
    by simp
  then show ?thesis using assms(1) by (simp add: tolist_def)
qed

section \<open>The exported record\<close>

text \<open>
  Claim C1. The exported record has the eight fields in the order of the dict literal.
  \<^verbatim>\<open>gamma\<close>, \<^verbatim>\<open>C\<close> and \<^verbatim>\<open>kernel\<close> are the model's own values. Each of the five array
  fields is the list form of the model's array of that name (\<open>list_form\<close>): lists
  nested as the shape of the array says, one level for each axis and each list as long as
  its axis, and \<^verbatim>\<open>field[i][j]\<close> is the element \<^verbatim>\<open>array[i, j]\<close> at every index of the
  array, a float of a float array and an integer of an integer array. Nothing is
  computed from the elements, none is left out, moved or added.
\<close>

theorem exported_record_is_projection:
  assumes "wf_svc m"
  shows "map fst (model_data m) =
       [''support_vectors'', ''dual_coef'', ''intercept'', ''gamma'', ''C'', ''kernel'',
        ''support'', ''n_support''] \<and>
     map_of (model_data m) ''gamma'' = Some (gamma m) \<and>
     map_of (model_data m) ''C'' = Some (C m) \<and>
     map_of (model_data m) ''kernel'' = Some (kernel m) \<and>
     (\<exists>v. map_of (model_data m) ''support_vectors'' = Some v \<and>
          list_form PFloat (support_vectors_attr m) v) \<and>
     (\<exists>v. map_of (model_data m) ''dual_coef'' = Some v \<and>
          list_form PFloat (dual_coef_attr m) v) \<and>
     (\<exists>v. map_of (model_data m) ''intercept'' = Some v \<and>
          list_form PFloat (intercept_attr m) v) \<and>
     (\<exists>v. map_of (model_data m) ''support'' = Some v \<and>
          list_form PInt (support_attr m) v) \<and>
     (\<exists>v. map_of (model_data m) ''n_support'' = Some v \<and>
          list_form PInt (n_support_attr m) v)"
  using assms
  by (simp add: model_data_def wf_svc_def tolist_list_form)

theorem exported_record_is_projection_witness:
  "wf_svc example_model \<and>
   map fst (model_data example_model) =
     [''support_vectors'', ''dual_coef'', ''intercept'', ''gamma'', ''C'', ''kernel'',
      ''support'', ''n_support''] \<and>
   map_of (model_data example_model) ''gamma'' = Some (gamma example_model) \<and>
   map_of (model_data example_model) ''C'' = Some (C example_model) \<and>
   map_of (model_data example_model) ''kernel'' = Some (kernel example_model) \<and>
   (\<exists>v. map_of (model_data example_model) ''support_vectors'' = Some v \<and>
        list_form PFloat (support_vectors_attr example_model) v) \<and>
   (\<exists>v. map_of (model_data example_model) ''dual_coef'' = Some v \<and>
        list_form PFloat (dual_coef_attr example_model) v) \<and>
   (\<exists>v. map_of (model_data example_model) ''intercept'' = Some v \<and>
        list_form PFloat (intercept_attr example_model) v) \<and>
   (\<exists>v. map_of (model_data example_model) ''support'' = Some v \<and>
        list_form PInt (support_attr example_model) v) \<and>
   (\<exists>v. map_of (model_data example_model) ''n_support'' = Some v \<and>
        list_form PInt (n_support_attr example_model) v) \<and>
   model_data example_model =
     [(''support_vectors'',
       PList [PList [PFloat (Finite 1), PFloat (Finite 2)],
              PList [PFloat (Finite 3), PFloat (Finite 4)],
              PList [PFloat (Finite 5), PFloat (Finite 6)]]),
      (''dual_coef'', PList [PList [PFloat (Finite 1), PFloat (Finite (- 1)), PFloat (Finite 1)]]),
      (''intercept'', PList [PFloat (Finite 0)]),
      (''gamma'', PStr ''scale''),
      (''C'', PFloat (Finite 1)),
      (''kernel'', PStr ''rbf''),
      (''support'', PList [PInt 0, PInt 4, PInt 7]),
      (''n_support'', PList [PInt 2, PInt 1])]"
proof -
  have wf: "wf_svc example_model"
    by (simp add: example_model_def wf_svc_def wf_ndarray_def)
  have rec: "model_data example_model =
     [(''support_vectors'',
       PList [PList [PFloat (Finite 1), PFloat (Finite 2)],
              PList [PFloat (Finite 3), PFloat (Finite 4)],
              PList [PFloat (Finite 5), PFloat (Finite 6)]]),
      (''dual_coef'', PList [PList [PFloat (Finite 1), PFloat (Finite (- 1)), PFloat (Finite 1)]]),
      (''intercept'', PList [PFloat (Finite 0)]),
      (''gamma'', PStr ''scale''),
      (''C'', PFloat (Finite 1)),
      (''kernel'', PStr ''rbf''),
      (''support'', PList [PInt 0, PInt 4, PInt 7]),
      (''n_support'', PList [PInt 2, PInt 1])]"
    by code_simp
  from wf exported_record_is_projection [OF wf] rec show ?thesis
    by (simp only: simp_thms)
qed

text \<open>
  Claim C9. When the model's \<^verbatim>\<open>support_vectors_\<close> is an array of \<open>n_sv\<close> rows and
  \<open>n_features\<close> columns, the exported \<^verbatim>\<open>support_vectors\<close> is a list of \<open>n_sv\<close> lists, each of
  \<open>n_features\<close> floats.
\<close>

theorem exported_support_vectors_dimensions:
  assumes "shape (support_vectors_attr m) = [n_sv, n_features]"
    and "wf_ndarray (support_vectors_attr m)"
  shows "\<exists>rows. map_of (model_data m) ''support_vectors'' = Some (PList rows) \<and>
     length rows = n_sv \<and>
     (\<forall>r \<in> set rows. \<exists>xs. r = PList (map PFloat xs) \<and> length xs = n_features)"
proof -
  let ?a = "support_vectors_attr m"
  let ?rows = "map (\<lambda>i. PList (map PFloat (take n_features (drop (i * n_features) (data ?a)))))
    [0..<n_sv]"
  have len: "length (data ?a) = n_sv * n_features"
    using assms by (simp add: wf_ndarray_def)
  have "map_of (model_data m) ''support_vectors'' = Some (PList ?rows)"
    by (simp add: model_data_def tolist_2d [OF assms])
  moreover have "length ?rows = n_sv"
    by simp
  moreover have "\<forall>r \<in> set ?rows. \<exists>xs. r = PList (map PFloat xs) \<and> length xs = n_features"
    using chunk_length [OF len] by auto
  ultimately show ?thesis by blast
qed

theorem exported_support_vectors_dimensions_witness:
  "shape (support_vectors_attr example_model) = [3, 2] \<and>
   wf_ndarray (support_vectors_attr example_model) \<and>
   (\<exists>rows. map_of (model_data example_model) ''support_vectors'' = Some (PList rows) \<and>
      length rows = 3 \<and>
      (\<forall>r \<in> set rows. \<exists>xs. r = PList (map PFloat xs) \<and> length xs = 2))"
proof -
  have sh: "shape (support_vectors_attr example_model) = [3, 2]"
    by (simp add: example_model_def)
  have wf: "wf_ndarray (support_vectors_attr example_model)"
    by (simp add: example_model_def wf_ndarray_def)
  from exported_support_vectors_dimensions [OF sh wf] sh wf show ?thesis
    by blast
qed



section \<open>Failure of the load step\<close>

text \<open>
  Claim C6. If the input artifact \<^verbatim>\<open>svm_param.joblib\<close> is missing, the run fails with
  the load error and leaves the world as it found it: no file is created, truncated or
  written, at the output path or anywhere else, and nothing is printed.
\<close>

theorem missing_artifact_fails_before_output:
  "files w ''svm_param.joblib'' = None \<Longrightarrow>
   convert_svm unpickle frepr w = (Inl FileNotFoundError, w)"
  by (simp add: convert_svm_def joblib_load_def)

theorem missing_artifact_fails_before_output_witness:
  "files \<lparr>files = [''svm_model.json'' \<mapsto> ''old''], writable = (\<lambda>p. True),
          stdout = [], trace = []\<rparr> ''svm_param.joblib'' = None \<and>
   convert_svm example_unpickle repr_whole
     \<lparr>files = [''svm_model.json'' \<mapsto> ''old''], writable = (\<lambda>p. True), stdout = [], trace = []\<rparr>
   = (Inl FileNotFoundError,
      \<lparr>files = [''svm_model.json'' \<mapsto> ''old''], writable = (\<lambda>p. True), stdout = [], trace = []\<rparr>)"
  using missing_artifact_fails_before_output
    [of "\<lparr>files = [''svm_model.json'' \<mapsto> ''old''], writable = (\<lambda>p. True),
          stdout = [], trace = []\<rparr>" example_unpickle repr_whole]
  by simp

section \<open>Errors are not caught\<close>

text \<open>
  Claim C5. When \<^verbatim>\<open>joblib.load\<close> raises, or \<^verbatim>\<open>open\<close> raises, or \<^verbatim>\<open>json.dump\<close> raises
  while it writes, the run ends with that very error as its result; the standard output
  is what it was, and no success message is among the events of the run.
\<close>

theorem errors_propagate_uncaught:
  assumes "joblib_load unpickle ''svm_param.joblib'' w = (Inl e, w1) \<or>
     (\<exists>m. joblib_load unpickle ''svm_param.joblib'' w = (Inr m, w1) \<and>
        (open_w ''svm_model.json'' w1 = Inl e \<or>
         (\<exists>w2 w3. open_w ''svm_model.json'' w1 = Inr w2 \<and>
            json_dump frepr (PDict (model_data m)) ''svm_model.json'' w2 = (Inl e, w3))))"
  shows "fst (convert_svm unpickle frepr w) = Inl e \<and>
     stdout (snd (convert_svm unpickle frepr w)) = stdout w \<and>
     printed (snd (convert_svm unpickle frepr w)) = printed w"
proof (cases rule: run_cases [where w = w and unpickle = unpickle and frepr = frepr])
  case missing
  then show ?thesis
    using assms by (auto simp: run_missing joblib_load_def)
next
  case (unpickle_error bytes e')
  then show ?thesis
    using assms by (auto simp: run_unpickle_error joblib_load_def printed_def)
next
  case (open_error bytes m)
  then show ?thesis
    using assms by (auto simp: run_open_error joblib_load_def open_w_def printed_def)
next
  case (dump_error bytes m written e')
  then show ?thesis
    using assms
    by (auto simp: run_dump_error joblib_load_def open_w_def json_dump_def printed_def
        simp del: iterencode.simps)
next
  case (success bytes m written)
  then show ?thesis
    using assms
    by (auto simp: joblib_load_def open_w_def json_dump_def simp del: iterencode.simps)
qed

theorem errors_propagate_uncaught_witness:
  "joblib_load example_unpickle ''svm_param.joblib'' (example_world ''pickled model'' False) =
     (Inr example_model,
      (example_world ''pickled model'' False)\<lparr>trace := [EvLoad ''svm_param.joblib'']\<rparr>) \<and>
   open_w ''svm_model.json''
     ((example_world ''pickled model'' False)\<lparr>trace := [EvLoad ''svm_param.joblib'']\<rparr>) =
     Inl PermissionError \<and>
   fst (convert_svm example_unpickle repr_whole (example_world ''pickled model'' False)) =
     Inl PermissionError \<and>
   stdout (snd (convert_svm example_unpickle repr_whole (example_world ''pickled model'' False))) = [] \<and>
   printed (snd (convert_svm example_unpickle repr_whole (example_world ''pickled model'' False))) = []"
proof -
  let ?w = "example_world ''pickled model'' False"
  let ?w1 = "?w\<lparr>trace := [EvLoad ''svm_param.joblib'']\<rparr>"
  have ld: "joblib_load example_unpickle ''svm_param.joblib'' ?w = (Inr example_model, ?w1)"
    by (simp add: joblib_load_def example_world_def example_unpickle_def)
  have op: "open_w ''svm_model.json'' ?w1 = Inl PermissionError"
    by (simp add: open_w_def example_world_def)
  from ld op
  have "joblib_load example_unpickle ''svm_param.joblib'' ?w = (Inl PermissionError, ?w1) \<or>
     (\<exists>m. joblib_load example_unpickle ''svm_param.joblib'' ?w = (Inr m, ?w1) \<and>
        (open_w ''svm_model.json'' ?w1 = Inl PermissionError \<or>
         (\<exists>w2 w3. open_w ''svm_model.json'' ?w1 = Inr w2 \<and>
            json_dump repr_whole (PDict (model_data m)) ''svm_model.json'' w2 =
              (Inl PermissionError, w3))))"
    by blast
  from errors_propagate_uncaught [OF this] ld op show ?thesis
    by (simp add: example_world_def printed_def)
qed

section \<open>The order of the steps\<close>

text \<open>
  Claim C7. A run that succeeds has done exactly this, in this order: read the artifact,
  opened the output file, written the text, closed the file, printed the message. The
  message comes after the close of the written file, once, and it is the one fixed
  line that the run adds to the standard output.
\<close>

theorem success_message_after_write:
  assumes "fst (convert_svm unpickle frepr w) = Inr ()"
  shows "\<exists>text. trace (snd (convert_svm unpickle frepr w)) =
        trace w @ [EvLoad ''svm_param.joblib'', EvOpen ''svm_model.json'',
                   EvWrite ''svm_model.json'' text, EvClose ''svm_model.json'',
                   EvPrint ''SVM model converted to JSON format''] \<and>
     files (snd (convert_svm unpickle frepr w)) ''svm_model.json'' = Some text \<and>
     stdout (snd (convert_svm unpickle frepr w)) =
        stdout w @ ''SVM model converted to JSON format'' @ [CHR 0x0A]"
proof (cases rule: run_cases [where w = w and unpickle = unpickle and frepr = frepr])
  case missing
  then show ?thesis using assms by (simp add: run_missing)
next
  case (unpickle_error bytes e)
  then show ?thesis using assms by (simp add: run_unpickle_error)
next
  case (open_error bytes m)
  then show ?thesis using assms by (simp add: run_open_error)
next
  case (dump_error bytes m written e)
  then show ?thesis using assms by (simp add: run_dump_error)
next
  case (success bytes m written)
  then show ?thesis by (simp add: run_success)
qed

theorem success_message_after_write_witness:
  "fst (convert_svm example_unpickle repr_whole (example_world ''pickled model'' True)) = Inr () \<and>
   (\<exists>text.
      trace (snd (convert_svm example_unpickle repr_whole (example_world ''pickled model'' True))) =
        trace (example_world ''pickled model'' True) @
          [EvLoad ''svm_param.joblib'', EvOpen ''svm_model.json'',
           EvWrite ''svm_model.json'' text, EvClose ''svm_model.json'',
           EvPrint ''SVM model converted to JSON format''] \<and>
      files (snd (convert_svm example_unpickle repr_whole (example_world ''pickled model'' True)))
        ''svm_model.json'' = Some text \<and>
      stdout (snd (convert_svm example_unpickle repr_whole (example_world ''pickled model'' True))) =
        stdout (example_world ''pickled model'' True) @
          ''SVM model converted to JSON format'' @ [CHR 0x0A])"
proof -
  have ok: "fst (convert_svm example_unpickle repr_whole (example_world ''pickled model'' True)) =
      Inr ()"
    by code_simp
  from ok success_message_after_write [OF ok] show ?thesis
    by (rule conjI)
qed

section \<open>The output file is overwritten\<close>

text \<open>
  Claim C10 says that a file at \<^verbatim>\<open>svm_model.json\<close> is overwritten on every run. It is not:
  the file is opened after the model is loaded, so a run that finds no artifact, or
  cannot unpickle it, ends before the open, and a run whose open is refused ends there.
  In each of the three runs below the file holds \<^verbatim>\<open>old\<close> before the run and after it.
\<close>

theorem failed_run_keeps_existing_output:
  "fst (convert_svm example_unpickle repr_whole
         \<lparr>files = [''svm_model.json'' \<mapsto> ''old''], writable = (\<lambda>p. True),
          stdout = [], trace = []\<rparr>) = Inl FileNotFoundError \<and>
   files (snd (convert_svm example_unpickle repr_whole
         \<lparr>files = [''svm_model.json'' \<mapsto> ''old''], writable = (\<lambda>p. True),
          stdout = [], trace = []\<rparr>)) ''svm_model.json'' = Some ''old'' \<and>
   fst (convert_svm example_unpickle repr_whole (example_world ''not a pickle'' True)) =
     Inl UnpicklingError \<and>
   files (snd (convert_svm example_unpickle repr_whole (example_world ''not a pickle'' True)))
     ''svm_model.json'' = Some ''old'' \<and>
   fst (convert_svm example_unpickle repr_whole (example_world ''pickled model'' False)) =
     Inl PermissionError \<and>
   files (snd (convert_svm example_unpickle repr_whole (example_world ''pickled model'' False)))
     ''svm_model.json'' = Some ''old''"
  by (simp add: script_defs example_world_def example_unpickle_def)

text \<open>
  Claim C10, as amended. On every run that loads the model and is allowed to open the
  path, whatever was at \<^verbatim>\<open>svm_model.json\<close> before is overwritten: the file holds the
  text the encoder has produced and nothing of what it held before, and the old content
  has no influence on how the run ends. The script makes no check for an existing file.
\<close>

theorem existing_output_overwritten:
  assumes "files w ''svm_param.joblib'' = Some bytes" and "unpickle bytes = Inr m"
    and "writable w ''svm_model.json''"
  shows "files (snd (convert_svm unpickle frepr
             (w\<lparr>files := (files w)(''svm_model.json'' \<mapsto> old)\<rparr>))) ''svm_model.json'' =
       Some (fst (iterencode frepr (PDict (model_data m)))) \<and>
     fst (convert_svm unpickle frepr (w\<lparr>files := (files w)(''svm_model.json'' \<mapsto> old)\<rparr>)) =
       fst (convert_svm unpickle frepr w)"
proof -
  let ?w = "w\<lparr>files := (files w)(''svm_model.json'' \<mapsto> old)\<rparr>"
  have f: "files ?w ''svm_param.joblib'' = Some bytes"
    using assms(1) by simp
  have wr: "writable ?w ''svm_model.json''"
    using assms(3) by simp
  obtain written err where enc: "iterencode frepr (PDict (model_data m)) = (written, err)"
    by (cases "iterencode frepr (PDict (model_data m))")
  show ?thesis
  proof (cases err)
    case None
    with enc show ?thesis
      by (simp add:
          run_success [where w = "?w" and unpickle = unpickle and frepr = frepr, OF f assms(2) wr]
          run_success [where w = w and unpickle = unpickle and frepr = frepr, OF assms]
          del: iterencode.simps)
  next
    case (Some e)
    with enc show ?thesis
      by (simp add:
          run_dump_error [where w = "?w" and unpickle = unpickle and frepr = frepr, OF f assms(2) wr]
          run_dump_error [where w = w and unpickle = unpickle and frepr = frepr, OF assms]
          del: iterencode.simps)
  qed
qed

theorem existing_output_overwritten_witness:
  "files (example_world ''pickled model'' True) ''svm_param.joblib'' = Some ''pickled model'' \<and>
   example_unpickle ''pickled model'' = Inr example_model \<and>
   writable (example_world ''pickled model'' True) ''svm_model.json'' \<and>
   files (snd (convert_svm example_unpickle repr_whole
           ((example_world ''pickled model'' True)
              \<lparr>files := (files (example_world ''pickled model'' True))
                 (''svm_model.json'' \<mapsto> ''stale text'')\<rparr>))) ''svm_model.json'' =
     Some (fst (iterencode repr_whole (PDict (model_data example_model)))) \<and>
   fst (convert_svm example_unpickle repr_whole
         ((example_world ''pickled model'' True)
            \<lparr>files := (files (example_world ''pickled model'' True))
               (''svm_model.json'' \<mapsto> ''stale text'')\<rparr>)) =
     fst (convert_svm example_unpickle repr_whole (example_world ''pickled model'' True))"
proof -
  have h1: "files (example_world ''pickled model'' True) ''svm_param.joblib'' =
      Some ''pickled model''"
    by (simp add: example_world_def)
  have h2: "example_unpickle ''pickled model'' = Inr example_model"
    by (simp add: example_unpickle_def)
  have h3: "writable (example_world ''pickled model'' True) ''svm_model.json''"
    by (simp add: example_world_def)
  from h1 h2 h3
    existing_output_overwritten
      [where unpickle = example_unpickle and w = "example_world ''pickled model'' True"
         and bytes = "''pickled model''" and m = example_model and frepr = repr_whole
         and old = "''stale text''", OF h1 h2 h3]
  show ?thesis
    by blast
qed

section \<open>Running the export twice\<close>

text \<open>
  Claim C4. A second run on the world the first run left behind leaves every file as
  the first run left it: the artifact is not touched by the export, it unpickles to the
  same model, and the same text is written over the output file. This holds for the
  failing runs as well.
\<close>

theorem export_twice_same_files:
  "files (snd (convert_svm unpickle frepr (snd (convert_svm unpickle frepr w)))) =
   files (snd (convert_svm unpickle frepr w))"
proof (cases rule: run_cases [where w = w and unpickle = unpickle and frepr = frepr])
  case missing
  then show ?thesis by (simp add: run_missing)
next
  case (unpickle_error bytes e)
  then show ?thesis by (simp add: run_unpickle_error)
next
  case (open_error bytes m)
  then show ?thesis by (simp add: run_open_error)
next
  case (dump_error bytes m written e)
  then show ?thesis by (simp add: run_dump_error)
next
  case (success bytes m written)
  then show ?thesis by (simp add: run_success)
qed

section \<open>What the encoder writes is read by the recogniser\<close>

text \<open>
  The lemmas of this section lead to \<open>encoder_accepts\<close>: when no float of a value is a
  NaN or an infinity and \<^verbatim>\<open>float.__repr__\<close> gives JSON numbers, the text that the
  encoder writes for the value without raising is a JSON value. \<open>encoder_ascii\<close>: all
  that the encoder writes is ASCII. \<open>record_fields\<close>: for the exported record the
  encoder writes \<open>record_text\<close>.
\<close>

lemma run_append:
  "run s (a @ b) = (case run s a of None \<Rightarrow> None | Some s' \<Rightarrow> run s' b)"
  by (induction a arbitrary: s) (auto split: option.splits)

lemma num_run_append:
  "num_run q (a @ b) = (case num_run q a of None \<Rightarrow> None | Some q' \<Rightarrow> num_run q' b)"
  by (induction a arbitrary: q) (auto split: option.splits)

lemma run_in_number:
  "num_run q s = Some q' \<Longrightarrow> run (Num q, st) s = Some (Num q', st)"
  by (induction s arbitrary: q) (auto split: option.splits)

lemma num_start_char:
  "num_step NStart c = Some q \<Longrightarrow> \<not> is_ws c \<and> c \<noteq> CHR '']''"
  by (auto simp: is_ws_def is_digit_def split: if_splits)

lemma json_number_value_text:
  assumes "json_number s"
  shows "value_text s"
proof -
  from assms obtain q where q: "num_run NStart s = Some q" "num_final q"
    by (auto simp: json_number_def split: option.splits)
  then obtain c cs where s: "s = c # cs"
    by (cases s) auto
  with q obtain q1 where q1: "num_step NStart c = Some q1" "num_run q1 cs = Some q"
    by (auto split: option.splits)
  have "run (Value, st) s = Some (Num q, st)" for st
    using q1 num_start_char [OF q1(1)] s
    by (simp add: value_step_def run_in_number)
  moreover have "run (ArrayFirst, st) s = run (Value, st) s" for st
    using num_start_char [OF q1(1)] s by simp
  ultimately show ?thesis
    using s q(2) by (simp add: value_text_def)
qed

lemma ended_follow:
  assumes "ended st d" and "c = CHR '','' \<or> c = CHR '']'' \<or> c = CHR ''}''"
  shows "step d c = after_step st c"
proof (cases d)
  case (Pair m st')
  with assms show ?thesis
  proof (cases m)
    case (Num q)
    with Pair assms show ?thesis
      by (cases q) (auto simp: is_digit_def)
  qed auto
qed

lemma digit_char_is_digit: "d < 10 \<Longrightarrow> is_digit (digit_char d)"
  by (simp add: is_digit_def digit_char_def)

lemma digit_char_zero: "d < 10 \<Longrightarrow> (digit_char d = CHR ''0'') = (d = 0)"
proof -
  assume "d < 10"
  then have "of_char (digit_char d) = 48 + d"
    by (simp add: digit_char_def)
  moreover have "of_char (CHR ''0'') = (48::nat)" by simp
  ultimately show ?thesis by (metis add_cancel_right_right of_char_eq_iff)
qed

lemma show_nat_number:
  assumes "q = NStart \<or> q = NMinus"
  shows "num_run q (show_nat n) = Some (if n = 0 then NZero else NInt)"
proof (induction n rule: show_nat.induct)
  case (1 n)
  show ?case
  proof (cases "n < 10")
    case True
    then have "show_nat n = [digit_char n]"
      by (simp add: show_nat.simps)
    moreover have "digit_char n \<noteq> CHR ''-''"
      using True digit_char_is_digit [of n] by (auto simp: is_digit_def)
    ultimately show ?thesis
      using True assms digit_char_is_digit [of n] digit_char_zero [of n] by auto
  next
    case False
    then have sn: "show_nat n = show_nat (n div 10) @ [digit_char (n mod 10)]"
      by (subst show_nat.simps) simp
    from False have "n div 10 \<noteq> 0" by simp
    with 1 False have "num_run q (show_nat (n div 10)) = Some NInt" by simp
    then show ?thesis
      using False sn digit_char_is_digit [of "n mod 10"] by (simp add: num_run_append)
  qed
qed

lemma intstr_number: "\<exists>q. num_run NStart (intstr i) = Some q \<and> (q = NZero \<or> q = NInt)"
proof (cases "i < 0")
  case True
  then show ?thesis by (simp add: intstr_def show_nat_number)
next
  case False
  then show ?thesis by (simp add: intstr_def show_nat_number)
qed

lemma json_number_intstr: "json_number (intstr i)"
  using intstr_number [of i] by (auto simp: json_number_def)

lemma json_number_repr_whole: "json_number (repr_whole i)"
  using intstr_number [of i]
  by (auto simp: json_number_def repr_whole_def num_run_append is_digit_def)


lemma hex_char_is_hex: "d < 16 \<Longrightarrow> is_hex (hex_char d)"
  by (auto simp: is_hex_def is_digit_def hex_char_def)

lemma run_hex4: "run (Hex k 4, st) (hex4 n) = Some (InStr k, st)"
  by (simp add: hex4_def hex_char_is_hex)

lemma run_escape_char: "run (InStr k, st) (escape_char c) = Some (InStr k, st)"
  by (simp add: escape_char_def run_hex4)

lemma run_escaped: "run (InStr k, st) (concat (map escape_char s)) = Some (InStr k, st)"
  by (induction s) (simp_all add: run_append run_escape_char)

lemma run_string_body:
  "run (InStr k, st) (concat (map escape_char s) @ [CHR 0x22]) =
     Some (if k then Colon else After, st)"
  by (simp add: run_append run_escaped)

lemma string_value_text: "value_text (encode_basestring_ascii s)"
  unfolding value_text_def encode_basestring_ascii_def
  by (simp add: value_step_def is_ws_def is_digit_def run_string_body)

lemma run_key:
  assumes "m = ObjectFirst \<or> m = Key"
  shows "run (m, st) (encode_basestring_ascii k @ '': '') = Some (Value, st)"
  using assms unfolding encode_basestring_ascii_def
  by (auto simp: is_ws_def run_append run_escaped)

lemma value_text_run: "value_text t \<Longrightarrow> \<exists>d. run (Value, st) t = Some d \<and> ended st d"
  by (simp add: value_text_def)

lemma value_text_first: "value_text t \<Longrightarrow> run (ArrayFirst, st) t = run (Value, st) t"
  by (simp add: value_text_def)

lemma array_rest_run:
  "array_rest r \<Longrightarrow> ended (InArray # st) d \<Longrightarrow> run d r = Some (After, st)"
  unfolding array_rest_def by blast

lemma object_rest_run:
  "object_rest r \<Longrightarrow> ended (InObject # st) d \<Longrightarrow> run d r = Some (After, st)"
  unfolding object_rest_def by blast

lemma array_rest_close: "array_rest '']''"
  by (auto simp: array_rest_def ended_follow after_step_def is_ws_def)

lemma object_rest_close: "object_rest ''}''"
  by (auto simp: object_rest_def ended_follow after_step_def is_ws_def)

lemma array_rest_cons:
  assumes "value_text tv" and "array_rest r"
  shows "array_rest ('', '' @ tv @ r)"
  unfolding array_rest_def
proof (intro allI impI)
  fix st d
  assume d: "ended (InArray # st) d"
  from value_text_run [OF assms(1)]
  obtain d' where d': "run (Value, InArray # st) tv = Some d'" "ended (InArray # st) d'"
    by blast
  from assms(2) d'(2) have "run d' r = Some (After, st)"
    by (rule array_rest_run)
  with d d'(1) show "run d ('', '' @ tv @ r) = Some (After, st)"
    by (simp add: ended_follow after_step_def is_ws_def run_append)
qed

lemma object_rest_cons:
  assumes "value_text tv" and "object_rest r"
  shows "object_rest ('', '' @ encode_basestring_ascii k @ '': '' @ tv @ r)"
  unfolding object_rest_def
proof (intro allI impI)
  fix st d
  assume d: "ended (InObject # st) d"
  from value_text_run [OF assms(1)]
  obtain d' where d': "run (Value, InObject # st) tv = Some d'" "ended (InObject # st) d'"
    by blast
  from assms(2) d'(2) have r: "run d' r = Some (After, st)"
    by (rule object_rest_run)
  have "run d ('', '' @ (encode_basestring_ascii k @ '': '') @ tv @ r) = Some (After, st)"
    using d d'(1) r
    by (simp add: ended_follow after_step_def is_ws_def run_append [of _ "encode_basestring_ascii k @ '': ''"]
        run_append [of _ tv] run_key del: append_assoc)
  then show "run d ('', '' @ encode_basestring_ascii k @ '': '' @ tv @ r) = Some (After, st)"
    by simp
qed

lemma array_value_text:
  assumes "value_text tv" and "array_rest r"
  shows "value_text (''['' @ tv @ r)"
  unfolding value_text_def
proof (intro conjI allI)
  show "''['' @ tv @ r \<noteq> []" by simp
next
  fix st
  from value_text_run [OF assms(1)]
  obtain d' where d': "run (Value, InArray # st) tv = Some d'" "ended (InArray # st) d'"
    by blast
  have af: "run (ArrayFirst, InArray # st) tv = run (Value, InArray # st) tv"
    by (rule value_text_first [OF assms(1)])
  from assms(2) d'(2) have "run d' r = Some (After, st)"
    by (rule array_rest_run)
  with d'(1) af have "run (Value, st) (''['' @ tv @ r) = Some (After, st)"
    by (simp add: value_step_def is_ws_def is_digit_def run_append)
  then show "\<exists>d. run (Value, st) (''['' @ tv @ r) = Some d \<and> ended st d"
    by simp
next
  fix st
  show "run (ArrayFirst, st) (''['' @ tv @ r) = run (Value, st) (''['' @ tv @ r)"
    by (simp add: is_ws_def)
qed

lemma object_value_text:
  assumes "value_text tv" and "object_rest r"
  shows "value_text (CHR ''{'' # encode_basestring_ascii k @ '': '' @ tv @ r)"
  unfolding value_text_def
proof (intro conjI allI)
  show "CHR ''{'' # encode_basestring_ascii k @ '': '' @ tv @ r \<noteq> []" by simp
next
  fix st
  from value_text_run [OF assms(1)]
  obtain d' where d': "run (Value, InObject # st) tv = Some d'" "ended (InObject # st) d'"
    by blast
  from assms(2) d'(2) have r: "run d' r = Some (After, st)"
    by (rule object_rest_run)
  have "run (Value, st) (CHR ''{'' # (encode_basestring_ascii k @ '': '') @ tv @ r) = Some (After, st)"
    using d'(1) r
    by (simp add: value_step_def is_ws_def is_digit_def run_append [of _ "encode_basestring_ascii k @ '': ''"]
        run_append [of _ tv] run_key del: append_assoc)
  then show "\<exists>d. run (Value, st) (CHR ''{'' # encode_basestring_ascii k @ '': '' @ tv @ r) = Some d \<and> ended st d"
    by simp
next
  fix st
  show "run (ArrayFirst, st) (CHR ''{'' # encode_basestring_ascii k @ '': '' @ tv @ r) =
      run (Value, st) (CHR ''{'' # encode_basestring_ascii k @ '': '' @ tv @ r)"
    by (simp add: is_ws_def)
qed

lemma literal_value_text:
  "value_text ''null''" "value_text ''true''" "value_text ''false''" "value_text ''[]''" "value_text ''{}''"
  by (simp_all add: value_text_def value_step_def is_ws_def is_digit_def after_step_def)


lemma finite_floatstr:
  "is_finite x \<Longrightarrow> \<forall>y. json_number (frepr y) \<Longrightarrow> json_number (floatstr frepr x)"
  by (cases x) (simp_all add: floatstr_def)

lemma array_rest_of_list:
  assumes "(vs = [] \<longrightarrow> t = '']'') \<and>
     (vs \<noteq> [] \<longrightarrow> (\<exists>tv r. t = '', '' @ tv @ r \<and> value_text tv \<and> array_rest r))"
  shows "array_rest t"
proof (cases vs)
  case Nil
  with assms show ?thesis by (simp add: array_rest_close)
next
  case (Cons a list)
  with assms obtain tv r where t: "t = '', '' @ tv @ r" and "value_text tv" "array_rest r"
    by auto
  then have "array_rest ('', '' @ tv @ r)" by (simp only: array_rest_cons)
  with t show ?thesis by simp
qed

lemma object_rest_of_dict:
  assumes "(kvs = [] \<longrightarrow> t = ''}'') \<and>
     (kvs \<noteq> [] \<longrightarrow> (\<exists>k tv r. t = (if False then [] else '', '') @ encode_basestring_ascii k @ '': '' @ tv @ r \<and>
        value_text tv \<and> object_rest r))"
  shows "object_rest t"
proof (cases kvs)
  case Nil
  with assms show ?thesis by (simp add: object_rest_close)
next
  case (Cons a list)
  with assms obtain k tv r where
    t: "t = '', '' @ encode_basestring_ascii k @ '': '' @ tv @ r" and "value_text tv" "object_rest r"
    by auto
  then have "object_rest ('', '' @ encode_basestring_ascii k @ '': '' @ tv @ r)"
    by (simp only: object_rest_cons)
  with t show ?thesis by simp
qed

lemma encoder_accepts:
  "iterencode frepr v = (t, None) \<Longrightarrow> finite_val v \<Longrightarrow> \<forall>y. json_number (frepr y) \<Longrightarrow>
     value_text t"
  "iterencode_list frepr buf vs = (t, None) \<Longrightarrow> finite_vals vs \<Longrightarrow> \<forall>y. json_number (frepr y) \<Longrightarrow>
     (vs = [] \<longrightarrow> t = '']'') \<and>
     (vs \<noteq> [] \<longrightarrow> (\<exists>tv r. t = buf @ tv @ r \<and> value_text tv \<and> array_rest r))"
  "iterencode_dict frepr first kvs = (t, None) \<Longrightarrow> finite_items kvs \<Longrightarrow> \<forall>y. json_number (frepr y) \<Longrightarrow>
     (kvs = [] \<longrightarrow> t = ''}'') \<and>
     (kvs \<noteq> [] \<longrightarrow> (\<exists>k tv r. t = (if first then [] else '', '') @ encode_basestring_ascii k @ '': '' @ tv @ r \<and>
        value_text tv \<and> object_rest r))"
proof (induction frepr v and frepr buf vs and frepr first kvs arbitrary: t and t and t
    rule: iterencode_iterencode_list_iterencode_dict.induct)
  case (1 frepr s)
  then show ?case by (auto simp: string_value_text)
next
  case (2 frepr)
  then show ?case by (auto simp: literal_value_text)
next
  case (3 frepr b)
  then show ?case by (auto simp: literal_value_text)
next
  case (4 frepr i)
  then show ?case by (auto intro: json_number_value_text json_number_intstr)
next
  case (5 frepr x)
  then show ?case by (auto intro: json_number_value_text finite_floatstr)
next
  case (6 frepr lst)
  show ?case
  proof (cases "lst = []")
    case True
    with 6 show ?thesis by (auto simp: literal_value_text)
  next
    case False
    with 6 have enc: "iterencode_list frepr ''['' lst = (t, None)" and fin: "finite_vals lst"
      by auto
    from 6(1) [OF False enc fin "6.prems"(3)] False
    obtain tv r where "t = ''['' @ tv @ r" "value_text tv" "array_rest r"
      by auto
    then show ?thesis by (simp only: array_value_text)
  qed
next
  case (7 frepr dct)
  show ?case
  proof (cases "dct = []")
    case True
    with 7 show ?thesis by (auto simp: literal_value_text)
  next
    case False
    with 7 obtain t' where enc: "iterencode_dict frepr True dct = (t', None)" and t: "t = CHR ''{'' # t'"
      and fin: "finite_items dct"
      by (auto split: prod.splits)
    from 7(1) [OF False enc fin "7.prems"(3)] False
    obtain k tv r where "t' = encode_basestring_ascii k @ '': '' @ tv @ r" "value_text tv" "object_rest r"
      by auto
    with t show ?thesis by (simp only: object_value_text)
  qed
next
  case (8 frepr)
  then show ?case by simp
next
  case (9 frepr buf)
  then show ?case by simp
next
  case (10 frepr buf v vs)
  from "10.prems"(1) obtain tv t2 where
    v: "iterencode frepr v = (tv, None)" and
    vs: "iterencode_list frepr '', '' vs = (t2, None)" and
    t: "t = buf @ tv @ t2"
    by (auto split: prod.splits option.splits)
  from "10.prems"(2) have fv: "finite_val v" and fvs: "finite_vals vs" by simp_all
  have "value_text tv"
    by (rule 10(1) [OF v fv "10.prems"(3)])
  moreover have "(vs = [] \<longrightarrow> t2 = '']'') \<and>
     (vs \<noteq> [] \<longrightarrow> (\<exists>tv r. t2 = '', '' @ tv @ r \<and> value_text tv \<and> array_rest r))"
    by (rule 10(2) [OF v [symmetric] refl vs fvs "10.prems"(3)])
  then have "array_rest t2"
    by (rule array_rest_of_list)
  ultimately show ?case using t by auto
next
  case (11 frepr first)
  then show ?case by simp
next
  case (12 frepr first k v kvs)
  from "12.prems"(1) obtain tv t2 where
    v: "iterencode frepr v = (tv, None)" and
    kvs: "iterencode_dict frepr False kvs = (t2, None)" and
    t: "t = (if first then [] else '', '') @ encode_basestring_ascii k @ '': '' @ tv @ t2"
    by (auto split: prod.splits option.splits)
  from "12.prems"(2) have fv: "finite_val v" and fkvs: "finite_items kvs" by simp_all
  have "value_text tv"
    by (rule 12(1) [OF v fv "12.prems"(3)])
  moreover have "(kvs = [] \<longrightarrow> t2 = ''}'') \<and>
     (kvs \<noteq> [] \<longrightarrow> (\<exists>k tv r. t2 = (if False then [] else '', '') @ encode_basestring_ascii k @ '': '' @ tv @ r \<and>
        value_text tv \<and> object_rest r))"
    by (rule 12(2) [OF v [symmetric] refl kvs fkvs "12.prems"(3)])
  then have "object_rest t2"
    by (rule object_rest_of_dict)
  ultimately show ?case using t by auto
qed


lemma is_ascii_simps [simp]:
  "is_ascii []" "is_ascii (c # s) = ((of_char c :: nat) < 128 \<and> is_ascii s)"
  "is_ascii (a @ b) = (is_ascii a \<and> is_ascii b)"
  by (auto simp: is_ascii_def)

lemma hex_char_ascii: "d < 16 \<Longrightarrow> (of_char (hex_char d) :: nat) < 128"
  by (simp add: hex_char_def)

lemma escape_char_ascii: "is_ascii (escape_char c)"
  by (simp add: escape_char_def hex4_def hex_char_ascii)

lemma encode_basestring_ascii_ascii: "is_ascii (encode_basestring_ascii s)"
  by (induction s) (simp_all add: encode_basestring_ascii_def escape_char_ascii)

lemma num_step_ascii: "num_step q c = Some q' \<Longrightarrow> (of_char c :: nat) < 128"
  by (cases q) (auto simp: is_digit_def split: if_splits)

lemma num_run_ascii: "num_run q s = Some q' \<Longrightarrow> is_ascii s"
  by (induction s arbitrary: q) (auto split: option.splits dest: num_step_ascii)

lemma json_number_ascii: "json_number s \<Longrightarrow> is_ascii s"
  by (auto simp: json_number_def split: option.splits dest: num_run_ascii)

lemma floatstr_ascii: "\<forall>y. json_number (frepr y) \<Longrightarrow> is_ascii (floatstr frepr x)"
  by (cases x) (simp_all add: floatstr_def json_number_ascii)

lemma encoder_ascii:
  "\<forall>y. json_number (frepr y) \<Longrightarrow> is_ascii (fst (iterencode frepr v))"
  "\<forall>y. json_number (frepr y) \<Longrightarrow> is_ascii buf \<Longrightarrow> is_ascii (fst (iterencode_list frepr buf vs))"
  "\<forall>y. json_number (frepr y) \<Longrightarrow> is_ascii (fst (iterencode_dict frepr first kvs))"
proof (induction frepr v and frepr buf vs and frepr first kvs
    rule: iterencode_iterencode_list_iterencode_dict.induct)
  case (4 frepr i)
  show ?case using json_number_ascii [OF json_number_intstr] by simp
next
  case (10 frepr buf v vs)
  then show ?case
    by (auto split: prod.splits option.splits)
next
  case (12 frepr first k v kvs)
  then show ?case
    by (auto simp: encode_basestring_ascii_ascii split: prod.splits option.splits)
qed (auto simp: encode_basestring_ascii_ascii floatstr_ascii split: prod.splits)

lemma finite_vals_iff: "finite_vals vs = (\<forall>v \<in> set vs. finite_val v)"
  by (induction vs) auto

lemma finite_nested:
  "\<forall>x \<in> set xs. finite_val (item x) \<Longrightarrow> finite_val (nested item ns xs)"
proof (induction ns arbitrary: xs)
  case Nil
  then show ?case by (cases xs) auto
next
  case (Cons n ns)
  have "finite_val (nested item ns (take (prod_list ns) (drop (i * prod_list ns) xs)))" for i
    using Cons.prems by (intro Cons.IH) (auto dest!: in_set_takeD in_set_dropD)
  then show ?case by (simp add: finite_vals_iff)
qed

lemma finite_model_data: "finite_model m \<Longrightarrow> finite_items (model_data m)"
  by (simp add: finite_model_def model_data_def tolist_def finite_nested)

lemma dict_cons_ok:
  assumes "iterencode_dict frepr first ((k, v) # kvs) = (t, None)"
  shows "\<exists>tv t'. iterencode frepr v = (tv, None) \<and> iterencode_dict frepr False kvs = (t', None) \<and>
     t = (if first then [] else '', '') @ encode_basestring_ascii k @ '': '' @ tv @ t'"
  using assms by (auto split: prod.splits option.splits)

lemma record_fields:
  assumes "iterencode frepr (PDict (model_data m)) = (t, None)"
  shows "t = record_text frepr m" and "\<forall>(k, v) \<in> set (model_data m). snd (iterencode frepr v) = None"
proof -
  from assms obtain t0 where
    t0: "iterencode_dict frepr True (model_data m) = (t0, None)" and t: "t = CHR ''{'' # t0"
    by (auto simp: model_data_def split: prod.splits simp del: iterencode_dict.simps)
  from dict_cons_ok [OF t0 [unfolded model_data_def]] obtain v1 t1 where
    1: "iterencode frepr (tolist PFloat (support_vectors_attr m)) = (v1, None)"
    and r1: "iterencode_dict frepr False
      [(''dual_coef'', tolist PFloat (dual_coef_attr m)),
       (''intercept'', tolist PFloat (intercept_attr m)),
       (''gamma'', gamma m), (''C'', C m), (''kernel'', kernel m),
       (''support'', tolist PInt (support_attr m)),
       (''n_support'', tolist PInt (n_support_attr m))] = (t1, None)"
    and e1: "t0 = encode_basestring_ascii ''support_vectors'' @ '': '' @ v1 @ t1"
    by (auto simp del: iterencode_dict.simps iterencode.simps)
  from dict_cons_ok [OF r1] obtain v2 t2 where
    2: "iterencode frepr (tolist PFloat (dual_coef_attr m)) = (v2, None)"
    and r2: "iterencode_dict frepr False
      [(''intercept'', tolist PFloat (intercept_attr m)),
       (''gamma'', gamma m), (''C'', C m), (''kernel'', kernel m),
       (''support'', tolist PInt (support_attr m)),
       (''n_support'', tolist PInt (n_support_attr m))] = (t2, None)"
    and e2: "t1 = '', '' @ encode_basestring_ascii ''dual_coef'' @ '': '' @ v2 @ t2"
    by (auto simp del: iterencode_dict.simps iterencode.simps)
  from dict_cons_ok [OF r2] obtain v3 t3 where
    3: "iterencode frepr (tolist PFloat (intercept_attr m)) = (v3, None)"
    and r3: "iterencode_dict frepr False
      [(''gamma'', gamma m), (''C'', C m), (''kernel'', kernel m),
       (''support'', tolist PInt (support_attr m)),
       (''n_support'', tolist PInt (n_support_attr m))] = (t3, None)"
    and e3: "t2 = '', '' @ encode_basestring_ascii ''intercept'' @ '': '' @ v3 @ t3"
    by (auto simp del: iterencode_dict.simps iterencode.simps)
  from dict_cons_ok [OF r3] obtain v4 t4 where
    4: "iterencode frepr (gamma m) = (v4, None)"
    and r4: "iterencode_dict frepr False
      [(''C'', C m), (''kernel'', kernel m),
       (''support'', tolist PInt (support_attr m)),
       (''n_support'', tolist PInt (n_support_attr m))] = (t4, None)"
    and e4: "t3 = '', '' @ encode_basestring_ascii ''gamma'' @ '': '' @ v4 @ t4"
    by (auto simp del: iterencode_dict.simps iterencode.simps)
  from dict_cons_ok [OF r4] obtain v5 t5 where
    5: "iterencode frepr (C m) = (v5, None)"
    and r5: "iterencode_dict frepr False
      [(''kernel'', kernel m),
       (''support'', tolist PInt (support_attr m)),
       (''n_support'', tolist PInt (n_support_attr m))] = (t5, None)"
    and e5: "t4 = '', '' @ encode_basestring_ascii ''C'' @ '': '' @ v5 @ t5"
    by (auto simp del: iterencode_dict.simps iterencode.simps)
  from dict_cons_ok [OF r5] obtain v6 t6 where
    6: "iterencode frepr (kernel m) = (v6, None)"
    and r6: "iterencode_dict frepr False
      [(''support'', tolist PInt (support_attr m)),
       (''n_support'', tolist PInt (n_support_attr m))] = (t6, None)"
    and e6: "t5 = '', '' @ encode_basestring_ascii ''kernel'' @ '': '' @ v6 @ t6"
    by (auto simp del: iterencode_dict.simps iterencode.simps)
  from dict_cons_ok [OF r6] obtain v7 t7 where
    7: "iterencode frepr (tolist PInt (support_attr m)) = (v7, None)"
    and r7: "iterencode_dict frepr False
      [(''n_support'', tolist PInt (n_support_attr m))] = (t7, None)"
    and e7: "t6 = '', '' @ encode_basestring_ascii ''support'' @ '': '' @ v7 @ t7"
    by (auto simp del: iterencode_dict.simps iterencode.simps)
  from dict_cons_ok [OF r7] obtain v8 where
    8: "iterencode frepr (tolist PInt (n_support_attr m)) = (v8, None)"
    and e8: "t7 = '', '' @ encode_basestring_ascii ''n_support'' @ '': '' @ v8 @ ''}''"
    by (auto simp del: iterencode_dict.simps(2) iterencode.simps)
  have keys:
    "encode_basestring_ascii ''support_vectors'' = ''\"support_vectors\"''"
    "encode_basestring_ascii ''dual_coef'' = ''\"dual_coef\"''"
    "encode_basestring_ascii ''intercept'' = ''\"intercept\"''"
    "encode_basestring_ascii ''gamma'' = ''\"gamma\"''"
    "encode_basestring_ascii ''C'' = ''\"C\"''"
    "encode_basestring_ascii ''kernel'' = ''\"kernel\"''"
    "encode_basestring_ascii ''support'' = ''\"support\"''"
    "encode_basestring_ascii ''n_support'' = ''\"n_support\"''"
    by (simp_all add: encode_basestring_ascii_def escape_char_def)
  show "t = record_text frepr m"
    unfolding t e1 e2 e3 e4 e5 e6 e7 e8 keys record_text_def json_of_def 1 2 3 4 5 6 7 8
    by simp
  show "\<forall>(k, v) \<in> set (model_data m). snd (iterencode frepr v) = None"
    unfolding model_data_def using 1 2 3 4 5 6 7 8 by simp
qed


lemma value_text_json_text: "value_text t \<Longrightarrow> json_text t"
  using value_text_run [of t "[]"] by (auto simp: json_text_def)

lemma finite_items_iff: "finite_items kvs = (\<forall>(k, v) \<in> set kvs. finite_val v)"
  by (induction kvs) auto

section \<open>The output file\<close>

text \<open>
  What a successful run writes. After a successful run on a model \<open>m\<close>, where
  \<^verbatim>\<open>float.__repr__\<close> writes every finite float as a JSON number (a hypothesis on the
  parameter \<open>frepr\<close>), the output file is \<open>record_text\<close>: one object with exactly the
  eight keys \<^verbatim>\<open>support_vectors\<close>, \<^verbatim>\<open>dual_coef\<close>, \<^verbatim>\<open>intercept\<close>, \<^verbatim>\<open>gamma\<close>, \<^verbatim>\<open>C\<close>,
  \<^verbatim>\<open>kernel\<close>, \<^verbatim>\<open>support\<close>, \<^verbatim>\<open>n_support\<close>, in ASCII and so in UTF-8. When no float of
  the model is a NaN or an infinity, the file is a standard JSON text and so is the text
  of each of the eight values.
\<close>

lemma output_of_successful_run:
  assumes "files w ''svm_param.joblib'' = Some bytes" and "unpickle bytes = Inr m"
    and "fst (convert_svm unpickle frepr w) = Inr ()"
    and "\<forall>x. json_number (frepr x)"
  shows "files (snd (convert_svm unpickle frepr w)) ''svm_model.json'' =
       Some (record_text frepr m) \<and>
     is_ascii (record_text frepr m) \<and>
     (finite_model m \<longrightarrow>
        json_text (record_text frepr m) \<and>
        (\<forall>(k, v) \<in> set (model_data m). json_text (json_of frepr v)))"
proof (cases rule: run_cases [where w = w and unpickle = unpickle and frepr = frepr])
  case missing
  with assms(1) show ?thesis by simp
next
  case (unpickle_error bytes' e)
  with assms(1,2) show ?thesis by simp
next
  case (open_error bytes' m')
  with assms(3) show ?thesis by (simp add: run_open_error)
next
  case (dump_error bytes' m' written e)
  with assms(3) show ?thesis by (simp add: run_dump_error)
next
  case (success bytes' m' written)
  with assms(1,2) have m': "m' = m" by simp
  note enc = success(4) [unfolded m']
  have rt: "written = record_text frepr m"
    by (rule record_fields(1) [OF enc])
  have "files (snd (convert_svm unpickle frepr w)) ''svm_model.json'' = Some written"
    using success by (simp add: run_success)
  moreover have "is_ascii written"
    using encoder_ascii(1) [OF assms(4), of "PDict (model_data m)"] enc by simp
  moreover have "json_text written" if "finite_model m"
    using encoder_accepts(1) [OF enc _ assms(4)] finite_model_data [OF that]
    by (simp add: value_text_json_text)
  moreover have "\<forall>(k, v) \<in> set (model_data m). json_text (json_of frepr v)"
    if fm: "finite_model m"
  proof (clarify)
    fix k v
    assume kv: "(k, v) \<in> set (model_data m)"
    with record_fields(2) [OF enc] have "snd (iterencode frepr v) = None" by auto
    then have e: "iterencode frepr v = (json_of frepr v, None)"
      by (simp add: json_of_def prod_eq_iff)
    from finite_model_data [OF fm] kv have "finite_val v"
      by (auto simp: finite_items_iff)
    from encoder_accepts(1) [OF e this assms(4)] show "json_text (json_of frepr v)"
      by (rule value_text_json_text)
  qed
  ultimately show ?thesis using rt by simp
qed

lemma output_of_example_run:
  "files (example_world ''pickled model'' True) ''svm_param.joblib'' = Some ''pickled model'' \<and>
   example_unpickle ''pickled model'' = Inr example_model \<and>
   fst (convert_svm example_unpickle repr_whole (example_world ''pickled model'' True)) = Inr () \<and>
   (\<forall>x. json_number (repr_whole x)) \<and>
   finite_model example_model \<and>
   files (snd (convert_svm example_unpickle repr_whole (example_world ''pickled model'' True)))
     ''svm_model.json'' = Some (record_text repr_whole example_model) \<and>
   is_ascii (record_text repr_whole example_model) \<and>
   json_text (record_text repr_whole example_model) \<and>
   list_all (\<lambda>(k, v). json_text (json_of repr_whole v)) (model_data example_model) \<and>
   record_text repr_whole example_model =
     ''{\"support_vectors\": [[1.0, 2.0], [3.0, 4.0], [5.0, 6.0]], \"dual_coef\": [[1.0, -1.0, 1.0]], \"intercept\": [0.0], \"gamma\": \"scale\", \"C\": 1.0, \"kernel\": \"rbf\", \"support\": [0, 4, 7], \"n_support\": [2, 1]}''"
proof -
  have h1: "files (example_world ''pickled model'' True) ''svm_param.joblib'' =
      Some ''pickled model''"
    by (simp add: example_world_def)
  have h2: "example_unpickle ''pickled model'' = Inr example_model"
    by (simp add: example_unpickle_def)
  have h3: "fst (convert_svm example_unpickle repr_whole (example_world ''pickled model'' True)) =
      Inr ()"
    by code_simp
  have h4: "\<forall>x. json_number (repr_whole x)"
    by (simp add: json_number_repr_whole)
  have h5: "finite_model example_model"
    by (simp add: finite_model_def example_model_def)
  have h6: "record_text repr_whole example_model =
     ''{\"support_vectors\": [[1.0, 2.0], [3.0, 4.0], [5.0, 6.0]], \"dual_coef\": [[1.0, -1.0, 1.0]], \"intercept\": [0.0], \"gamma\": \"scale\", \"C\": 1.0, \"kernel\": \"rbf\", \"support\": [0, 4, 7], \"n_support\": [2, 1]}''"
    by code_simp
  from h1 h2 h3 h4 h5 h6
    output_of_successful_run
      [where w = "example_world ''pickled model'' True" and unpickle = example_unpickle
         and bytes = "''pickled model''" and m = example_model and frepr = repr_whole,
       OF h1 h2 h3 h4]
  show ?thesis unfolding list_all_iff by blast
qed

section \<open>A float that is not a number\<close>

text \<open>
  Claim C2. The script's comments call what it writes JSON (\<^verbatim>\<open>to JSON format for web use\<close>,
  \<^verbatim>\<open>Save as JSON\<close>), and the claim is that the file of every successful run is standard
  JSON. The script does not keep to it. \<^verbatim>\<open>json.dump\<close> is called without
  \<^verbatim>\<open>allow_nan=False\<close>, so a float that is a NaN or an infinity is written as \<^verbatim>\<open>NaN\<close>,
  \<^verbatim>\<open>Infinity\<close> or \<^verbatim>\<open>-Infinity\<close>, which are no JSON. The run on the model whose
  intercept is a NaN succeeds, and its output file is not a standard JSON text.
\<close>

theorem nan_output_is_not_standard_json:
  "fst (convert_svm example_unpickle repr_whole
         (example_world ''pickled model, NaN intercept'' True)) = Inr () \<and>
   files (snd (convert_svm example_unpickle repr_whole
                (example_world ''pickled model, NaN intercept'' True))) ''svm_model.json'' =
     Some ''{\"support_vectors\": [[1.0, 2.0], [3.0, 4.0], [5.0, 6.0]], \"dual_coef\": [[1.0, -1.0, 1.0]], \"intercept\": [NaN], \"gamma\": \"scale\", \"C\": 1.0, \"kernel\": \"rbf\", \"support\": [0, 4, 7], \"n_support\": [2, 1]}'' \<and>
   \<not> json_text ''{\"support_vectors\": [[1.0, 2.0], [3.0, 4.0], [5.0, 6.0]], \"dual_coef\": [[1.0, -1.0, 1.0]], \"intercept\": [NaN], \"gamma\": \"scale\", \"C\": 1.0, \"kernel\": \"rbf\", \"support\": [0, 4, 7], \"n_support\": [2, 1]}''"
  by code_simp

section \<open>Reading the output back\<close>

text \<open>
  The reader gives back what the encoder writes. \<open>read_int_intstr\<close>: every integer.
  \<open>reader_reads_encoder\<close>: every value none of whose floats is a NaN or an infinity,
  when the float parse gives back the finite floats (\<open>float_round_trip\<close>).
  \<open>output_is_read_back\<close>: after a successful run on a model of finite floats, what is
  read from the output file is the exported record, field by field the values of the
  model. The file of the example run is read back to the record of the example model.
\<close>

lemma read_nat_append: "read_nat acc (xs @ [c]) = 10 * read_nat acc xs + digit_val c"
  by (induction xs arbitrary: acc) simp_all

lemma digit_val_digit_char: "d < 10 \<Longrightarrow> digit_val (digit_char d) = d"
  by (simp add: digit_val_def digit_char_def)

lemma read_nat_show_nat: "read_nat 0 (show_nat n) = n"
proof (induction n rule: show_nat.induct)
  case (1 n)
  show ?case
  proof (cases "n < 10")
    case True
    then show ?thesis
      by (subst show_nat.simps) (simp add: digit_val_digit_char)
  next
    case False
    with 1 have "read_nat 0 (show_nat (n div 10)) = n div 10" by simp
    with False show ?thesis
      by (subst show_nat.simps) (simp add: read_nat_append digit_val_digit_char)
  qed
qed

lemma show_nat_no_minus: "hd (show_nat n) \<noteq> CHR ''-'' \<and> show_nat n \<noteq> []"
proof (induction n rule: show_nat.induct)
  case (1 n)
  show ?case
  proof (cases "n < 10")
    case True
    then have "is_digit (digit_char n)" by (rule digit_char_is_digit)
    then have "digit_char n \<noteq> CHR ''-''"
      by (auto simp: is_digit_def)
    with True show ?thesis
      by (subst (1 2) show_nat.simps) simp
  next
    case False
    with 1 have "hd (show_nat (n div 10)) \<noteq> CHR ''-'' \<and> show_nat (n div 10) \<noteq> []" by simp
    with False show ?thesis
      by (subst (1 2) show_nat.simps) simp
  qed
qed

lemma read_int_intstr: "read_int (intstr i) = i"
proof (cases "i < 0")
  case True
  then show ?thesis
    by (simp add: read_int_def intstr_def read_nat_show_nat)
next
  case False
  obtain c cs where cs: "show_nat (nat i) = c # cs" and c: "c \<noteq> CHR ''-''"
    using show_nat_no_minus [of "nat i"] by (cases "show_nat (nat i)") auto
  have "read_nat 0 (c # cs) = nat i"
    using read_nat_show_nat [of "nat i"] cs by simp
  with False cs c show ?thesis
    by (simp add: read_int_def intstr_def)
qed

lemma prun_append:
  "prun fparse s (a @ b) = (case prun fparse s a of None \<Rightarrow> None | Some s' \<Rightarrow> prun fparse s' b)"
  by (induction a arbitrary: s) (auto split: option.splits)

lemma deliver_after: "\<exists>fs' r'. deliver v fs r = (PAfter, fs', r')"
  by (cases "(v, fs, r)" rule: deliver.cases) auto

lemma num_step_delimiter:
  "c = CHR '','' \<or> c = CHR '']'' \<or> c = CHR ''}'' \<Longrightarrow> num_step q c = None"
  by (cases q) (auto simp: is_digit_def)

lemma pended_follow:
  assumes "pended fparse v fs r d" and "c = CHR '','' \<or> c = CHR '']'' \<or> c = CHR ''}''"
  shows "pstep fparse d c = (case deliver v fs r of (m, fs', r') \<Rightarrow> pafter_step fs' r' c)"
proof -
  from assms(1) consider "d = deliver v fs r"
    | q s where "d = (PNum q s, fs, r)" "num_final q" "number_value fparse s = v"
    by (auto simp: pended_def)
  then show ?thesis
  proof cases
    case 1
    obtain fs' r' where "deliver v fs r = (PAfter, fs', r')"
      using deliver_after by blast
    with 1 show ?thesis by simp
  next
    case 2
    with num_step_delimiter [OF assms(2), of q] show ?thesis by simp
  qed
qed

lemma pended_array_comma:
  "pended fparse v (ArrayFrame items # fs) r d \<Longrightarrow>
   pstep fparse d (CHR '','') = Some (PValue, ArrayFrame (items @ [v]) # fs, r)"
  by (simp add: pended_follow pafter_step_def is_ws_def)

lemma pended_array_close:
  "pended fparse v (ArrayFrame items # fs) r d \<Longrightarrow>
   pstep fparse d (CHR '']'') = Some (deliver (PList (items @ [v])) fs r)"
  by (simp add: pended_follow pafter_step_def is_ws_def)

lemma pended_object_comma:
  "pended fparse v (ObjectFrame items k # fs) r d \<Longrightarrow>
   pstep fparse d (CHR '','') = Some (PKey, ObjectFrame (items @ [(k, v)]) k # fs, r)"
  by (simp add: pended_follow pafter_step_def is_ws_def)

lemma pended_object_close:
  "pended fparse v (ObjectFrame items k # fs) r d \<Longrightarrow>
   pstep fparse d (CHR ''}'') = Some (deliver (PDict (items @ [(k, v)])) fs r)"
  by (simp add: pended_follow pafter_step_def is_ws_def)

lemma prun_in_number:
  "num_run q s = Some q' \<Longrightarrow>
   prun fparse (PNum q acc, fs, r) s = Some (PNum q' (acc @ s), fs, r)"
  by (induction s arbitrary: q acc) (auto split: option.splits)

lemma number_reads:
  assumes "json_number s"
  shows "reads_value fparse s (number_value fparse s)"
proof -
  from assms obtain q where q: "num_run NStart s = Some q" "num_final q"
    by (auto simp: json_number_def split: option.splits)
  then obtain c cs where s: "s = c # cs"
    by (cases s) auto
  with q obtain q1 where q1: "num_step NStart c = Some q1" "num_run q1 cs = Some q"
    by (auto split: option.splits)
  have "prun fparse (PValue, fs, r) s = Some (PNum q s, fs, r)" for fs r
    using q1 num_start_char [OF q1(1)] s
    by (simp add: pvalue_step_def prun_in_number)
  moreover have "prun fparse (PArrayFirst, fs, r) s = prun fparse (PValue, fs, r) s" for fs r
    using num_start_char [OF q1(1)] s by simp
  ultimately show ?thesis
    using s q(2) by (simp add: reads_value_def pended_def)
qed


lemma of_char_less_256: "(of_char c :: nat) < 256"
proof -
  have "(of_char c :: nat) mod 256 = of_char c" by (rule of_char_mod_256)
  moreover have "(of_char c :: nat) mod 256 < 256" by simp
  ultimately show ?thesis by simp
qed

lemma of_char_char_of_small: "n < 256 \<Longrightarrow> (of_char (char_of n) :: nat) = n"
  by simp

lemma hex_val_hex_char: "d < 16 \<Longrightarrow> hex_val (hex_char d) = d"
proof (cases "d < 10")
  case True
  then have "(of_char (hex_char d) :: nat) = 48 + d" by (simp add: hex_char_def)
  with True show ?thesis by (simp add: hex_val_def is_digit_def)
next
  case False
  assume "d < 16"
  with False have "(of_char (hex_char d) :: nat) = 87 + d" by (simp add: hex_char_def)
  with False \<open>d < 16\<close> show ?thesis by (simp add: hex_val_def is_digit_def)
qed

lemma hex4_small:
  assumes "n < 256"
  shows "hex4 n = [hex_char 0, hex_char 0, hex_char (n div 16), hex_char (n mod 16)]"
proof -
  from assms have "n div 4096 = 0" "n div 256 = 0" by simp_all
  moreover from assms have "n div 16 < 16" by simp
  then have "n div 16 mod 16 = n div 16" by simp
  ultimately show ?thesis by (simp add: hex4_def)
qed

lemma prun_hex4:
  assumes "n < 256"
  shows "prun fparse (PHex k acc 4 0, fs, r) (hex4 n) = Some (PStrIn k (acc @ [char_of n]), fs, r)"
proof -
  from assms have b1: "n div 16 < 16" by simp
  have b2: "n mod 16 < 16" by simp
  have c: "16 * (n div 16) + n mod 16 = n" by simp
  have z: "hex_val (hex_char 0) = 0" "is_hex (hex_char 0)"
    by (simp_all add: hex_val_hex_char hex_char_is_hex)
  have "prun fparse (PHex k acc 4 0, fs, r)
      [hex_char 0, hex_char 0, hex_char (n div 16), hex_char (n mod 16)] =
      Some (PStrIn k (acc @ [char_of (16 * (n div 16) + n mod 16)]), fs, r)"
    using assms
    by (simp add: z hex_char_is_hex [OF b1] hex_char_is_hex [OF b2]
        hex_val_hex_char [OF b1] hex_val_hex_char [OF b2] del: mult_div_mod_eq)
  then show ?thesis
    by (simp only: hex4_small [OF assms] c)
qed

lemma prun_escape_char:
  "prun fparse (PStrIn k acc, fs, r) (escape_char c) = Some (PStrIn k (acc @ [c]), fs, r)"
proof -
  have u: "prun fparse (PStrIn k acc, fs, r) (CHR 0x5C # CHR ''u'' # hex4 (of_char c)) =
      Some (PStrIn k (acc @ [c]), fs, r)"
    using prun_hex4 [OF of_char_less_256, of fparse k acc fs r c] by simp
  show ?thesis
    unfolding escape_char_def
    by (simp add: unescape_def u del: prun.simps(2)) (simp add: unescape_def)
qed

lemma prun_escaped:
  "prun fparse (PStrIn k acc, fs, r) (concat (map escape_char s)) = Some (PStrIn k (acc @ s), fs, r)"
  by (induction s arbitrary: acc) (simp_all add: prun_append prun_escape_char)

lemma string_reads: "reads_value fparse (encode_basestring_ascii s) (PStr s)"
  unfolding reads_value_def encode_basestring_ascii_def
  by (simp add: pvalue_step_def is_ws_def is_digit_def prun_append prun_escaped pended_def)

lemma key_reads:
  assumes "m = PObjectFirst \<or> m = PKey"
  shows "prun fparse (m, ObjectFrame items k0 # fs, r) (encode_basestring_ascii k @ '': '') =
     Some (PValue, ObjectFrame items k # fs, r)"
  using assms unfolding encode_basestring_ascii_def
  by (auto simp: is_ws_def prun_append prun_escaped)

lemma literal_reads:
  "reads_value fparse ''null'' PNone" "reads_value fparse ''true'' (PBool True)"
  "reads_value fparse ''false'' (PBool False)" "reads_value fparse ''[]'' (PList [])"
  "reads_value fparse ''{}'' (PDict [])"
  by (simp_all add: reads_value_def pvalue_step_def is_ws_def is_digit_def pafter_step_def
      pended_def)

lemma reads_value_run:
  "reads_value fparse t v \<Longrightarrow> \<exists>d. prun fparse (PValue, fs, r) t = Some d \<and> pended fparse v fs r d"
  by (simp add: reads_value_def)

lemma reads_value_first:
  "reads_value fparse t v \<Longrightarrow> prun fparse (PArrayFirst, fs, r) t = prun fparse (PValue, fs, r) t"
  by (simp add: reads_value_def)

lemma reads_array_rest_run:
  "reads_array_rest fparse t vs \<Longrightarrow> pended fparse v (ArrayFrame items # fs) r d \<Longrightarrow>
   prun fparse d t = Some (deliver (PList (items @ v # vs)) fs r)"
  unfolding reads_array_rest_def by blast

lemma reads_object_rest_run:
  "reads_object_rest fparse t kvs \<Longrightarrow> pended fparse v (ObjectFrame items k # fs) r d \<Longrightarrow>
   prun fparse d t = Some (deliver (PDict (items @ (k, v) # kvs)) fs r)"
  unfolding reads_object_rest_def by blast

lemma reads_array_rest_close: "reads_array_rest fparse '']'' []"
  by (simp add: reads_array_rest_def pended_array_close)

lemma reads_object_rest_close: "reads_object_rest fparse ''}'' []"
  by (simp add: reads_object_rest_def pended_object_close)

lemma reads_array_rest_cons:
  assumes "reads_value fparse tv v'" and "reads_array_rest fparse rest vs"
  shows "reads_array_rest fparse ('', '' @ tv @ rest) (v' # vs)"
  unfolding reads_array_rest_def
proof (intro allI impI)
  fix fs r items v d
  assume d: "pended fparse v (ArrayFrame items # fs) r d"
  from reads_value_run [OF assms(1)]
  obtain d' where d': "prun fparse (PValue, ArrayFrame (items @ [v]) # fs, r) tv = Some d'"
    "pended fparse v' (ArrayFrame (items @ [v]) # fs) r d'"
    by blast
  from assms(2) d'(2)
  have "prun fparse d' rest = Some (deliver (PList ((items @ [v]) @ v' # vs)) fs r)"
    by (rule reads_array_rest_run)
  with d'(1) show "prun fparse d ('', '' @ tv @ rest) =
      Some (deliver (PList (items @ v # v' # vs)) fs r)"
    by (simp add: pended_array_comma [OF d] is_ws_def prun_append)
qed

lemma reads_object_rest_cons:
  assumes "reads_value fparse tv v'" and "reads_object_rest fparse rest kvs"
  shows "reads_object_rest fparse ('', '' @ encode_basestring_ascii k' @ '': '' @ tv @ rest)
     ((k', v') # kvs)"
  unfolding reads_object_rest_def
proof (intro allI impI)
  fix fs r items k v d
  assume d: "pended fparse v (ObjectFrame items k # fs) r d"
  from reads_value_run [OF assms(1)]
  obtain d' where d': "prun fparse (PValue, ObjectFrame (items @ [(k, v)]) k' # fs, r) tv = Some d'"
    "pended fparse v' (ObjectFrame (items @ [(k, v)]) k' # fs) r d'"
    by blast
  from assms(2) d'(2)
  have "prun fparse d' rest = Some (deliver (PDict ((items @ [(k, v)]) @ (k', v') # kvs)) fs r)"
    by (rule reads_object_rest_run)
  then have r: "prun fparse d' rest = Some (deliver (PDict (items @ (k, v) # (k', v') # kvs)) fs r)"
    by simp
  have "prun fparse d ('', '' @ (encode_basestring_ascii k' @ '': '') @ tv @ rest) =
      Some (deliver (PDict (items @ (k, v) # (k', v') # kvs)) fs r)"
    using d'(1) r
    by (simp add: pended_object_comma [OF d] is_ws_def
        prun_append [of _ _ "encode_basestring_ascii k' @ '': ''"]
        prun_append [of _ _ tv] key_reads del: append_assoc)
  then show "prun fparse d ('', '' @ encode_basestring_ascii k' @ '': '' @ tv @ rest) =
      Some (deliver (PDict (items @ (k, v) # (k', v') # kvs)) fs r)"
    by simp
qed

lemma array_reads:
  assumes "reads_value fparse tv v" and "reads_array_rest fparse rest vs"
  shows "reads_value fparse (''['' @ tv @ rest) (PList (v # vs))"
  unfolding reads_value_def
proof (intro conjI allI)
  show "''['' @ tv @ rest \<noteq> []" by simp
next
  fix fs r
  from reads_value_run [OF assms(1)]
  obtain d' where d': "prun fparse (PValue, ArrayFrame [] # fs, r) tv = Some d'"
    "pended fparse v (ArrayFrame [] # fs) r d'"
    by blast
  have af: "prun fparse (PArrayFirst, ArrayFrame [] # fs, r) tv =
      prun fparse (PValue, ArrayFrame [] # fs, r) tv"
    by (rule reads_value_first [OF assms(1)])
  from assms(2) d'(2) have "prun fparse d' rest = Some (deliver (PList ([] @ v # vs)) fs r)"
    by (rule reads_array_rest_run)
  with d'(1) af
  have "prun fparse (PValue, fs, r) (''['' @ tv @ rest) = Some (deliver (PList (v # vs)) fs r)"
    by (simp add: pvalue_step_def is_ws_def is_digit_def prun_append)
  then show "\<exists>d. prun fparse (PValue, fs, r) (''['' @ tv @ rest) = Some d \<and>
      pended fparse (PList (v # vs)) fs r d"
    by (simp add: pended_def)
next
  fix fs r
  show "prun fparse (PArrayFirst, fs, r) (''['' @ tv @ rest) =
      prun fparse (PValue, fs, r) (''['' @ tv @ rest)"
    by (simp add: is_ws_def)
qed

lemma object_reads:
  assumes "reads_value fparse tv v" and "reads_object_rest fparse rest kvs"
  shows "reads_value fparse (CHR ''{'' # encode_basestring_ascii k @ '': '' @ tv @ rest)
     (PDict ((k, v) # kvs))"
  unfolding reads_value_def
proof (intro conjI allI)
  show "CHR ''{'' # encode_basestring_ascii k @ '': '' @ tv @ rest \<noteq> []" by simp
next
  fix fs r
  from reads_value_run [OF assms(1)]
  obtain d' where d': "prun fparse (PValue, ObjectFrame [] k # fs, r) tv = Some d'"
    "pended fparse v (ObjectFrame [] k # fs) r d'"
    by blast
  from assms(2) d'(2) have "prun fparse d' rest = Some (deliver (PDict ([] @ (k, v) # kvs)) fs r)"
    by (rule reads_object_rest_run)
  then have r: "prun fparse d' rest = Some (deliver (PDict ((k, v) # kvs)) fs r)"
    by simp
  have "prun fparse (PValue, fs, r) (CHR ''{'' # (encode_basestring_ascii k @ '': '') @ tv @ rest) =
      Some (deliver (PDict ((k, v) # kvs)) fs r)"
    using d'(1) r
    by (simp add: pvalue_step_def is_ws_def is_digit_def
        prun_append [of _ _ "encode_basestring_ascii k @ '': ''"]
        prun_append [of _ _ tv] key_reads del: append_assoc)
  then show "\<exists>d. prun fparse (PValue, fs, r)
        (CHR ''{'' # encode_basestring_ascii k @ '': '' @ tv @ rest) = Some d \<and>
      pended fparse (PDict ((k, v) # kvs)) fs r d"
    by (simp add: pended_def)
next
  fix fs r
  show "prun fparse (PArrayFirst, fs, r) (CHR ''{'' # encode_basestring_ascii k @ '': '' @ tv @ rest) =
      prun fparse (PValue, fs, r) (CHR ''{'' # encode_basestring_ascii k @ '': '' @ tv @ rest)"
    by (simp add: is_ws_def)
qed

lemma show_nat_digits: "c \<in> set (show_nat n) \<Longrightarrow> is_digit c"
proof (induction n rule: show_nat.induct)
  case (1 n)
  show ?case
  proof (cases "n < 10")
    case True
    with "1.prems" show ?thesis
      by (subst (asm) show_nat.simps) (simp add: digit_char_is_digit)
  next
    case False
    with "1.prems" have "c \<in> set (show_nat (n div 10)) \<or> c = digit_char (n mod 10)"
      by (subst (asm) show_nat.simps) auto
    with 1(1) [OF False] show ?thesis
      by (auto simp: digit_char_is_digit)
  qed
qed

lemma number_value_intstr: "number_value fparse (intstr i) = PInt i"
proof -
  have d: "c \<in> set (intstr i) \<Longrightarrow> c = CHR ''-'' \<or> is_digit c" for c
    by (auto simp: intstr_def dest: show_nat_digits split: if_splits)
  have "CHR ''.'' \<notin> set (intstr i)" "CHR ''e'' \<notin> set (intstr i)" "CHR ''E'' \<notin> set (intstr i)"
    using d [of "CHR ''.''"] d [of "CHR ''e''"] d [of "CHR ''E''"]
    by (auto simp: is_digit_def)
  then show ?thesis
    by (simp add: number_value_def read_int_intstr)
qed

lemma int_reads: "reads_value fparse (intstr i) (PInt i)"
  using number_reads [OF json_number_intstr, of fparse i] by (simp add: number_value_intstr)

lemma float_reads:
  assumes "float_round_trip frepr fparse" and "is_finite x"
  shows "reads_value fparse (floatstr frepr x) (PFloat x)"
proof -
  from assms(2) obtain y where x: "x = Finite y" by (cases x) auto
  from assms(1) have "json_number (frepr y)" "number_value fparse (frepr y) = PFloat (Finite y)"
    by (simp_all add: float_round_trip_def)
  with number_reads [of "frepr y" fparse] x show ?thesis
    by (simp add: floatstr_def)
qed

lemma reads_array_rest_of_list:
  assumes "(vs = [] \<longrightarrow> t = '']'') \<and>
     (vs \<noteq> [] \<longrightarrow> (\<exists>tv rest. t = '', '' @ tv @ rest \<and> reads_value fparse tv (hd vs) \<and>
        reads_array_rest fparse rest (tl vs)))"
  shows "reads_array_rest fparse t vs"
proof (cases vs)
  case Nil
  with assms show ?thesis by (simp add: reads_array_rest_close)
next
  case (Cons a list)
  with assms obtain tv rest where t: "t = '', '' @ tv @ rest" and "reads_value fparse tv a"
    "reads_array_rest fparse rest list"
    by auto
  then have "reads_array_rest fparse ('', '' @ tv @ rest) (a # list)"
    by (simp only: reads_array_rest_cons)
  with t Cons show ?thesis by simp
qed

lemma reads_object_rest_of_dict:
  assumes "(kvs = [] \<longrightarrow> t = ''}'') \<and>
     (kvs \<noteq> [] \<longrightarrow> (\<exists>tv rest. t = (if False then [] else '', '') @
          encode_basestring_ascii (fst (hd kvs)) @ '': '' @ tv @ rest \<and>
        reads_value fparse tv (snd (hd kvs)) \<and> reads_object_rest fparse rest (tl kvs)))"
  shows "reads_object_rest fparse t kvs"
proof (cases kvs)
  case Nil
  with assms show ?thesis by (simp add: reads_object_rest_close)
next
  case (Cons a list)
  obtain k v where a: "a = (k, v)" by (cases a)
  with Cons assms obtain tv rest where
    t: "t = '', '' @ encode_basestring_ascii k @ '': '' @ tv @ rest" and "reads_value fparse tv v"
    "reads_object_rest fparse rest list"
    by auto
  then have "reads_object_rest fparse ('', '' @ encode_basestring_ascii k @ '': '' @ tv @ rest)
      ((k, v) # list)"
    by (simp only: reads_object_rest_cons)
  with t Cons a show ?thesis by simp
qed

lemma reader_reads_encoder:
  "iterencode frepr v = (t, None) \<Longrightarrow> finite_val v \<Longrightarrow> float_round_trip frepr fparse \<Longrightarrow>
     reads_value fparse t v"
  "iterencode_list frepr buf vs = (t, None) \<Longrightarrow> finite_vals vs \<Longrightarrow>
     float_round_trip frepr fparse \<Longrightarrow>
     (vs = [] \<longrightarrow> t = '']'') \<and>
     (vs \<noteq> [] \<longrightarrow> (\<exists>tv rest. t = buf @ tv @ rest \<and> reads_value fparse tv (hd vs) \<and>
        reads_array_rest fparse rest (tl vs)))"
  "iterencode_dict frepr first kvs = (t, None) \<Longrightarrow> finite_items kvs \<Longrightarrow>
     float_round_trip frepr fparse \<Longrightarrow>
     (kvs = [] \<longrightarrow> t = ''}'') \<and>
     (kvs \<noteq> [] \<longrightarrow> (\<exists>tv rest. t = (if first then [] else '', '') @
          encode_basestring_ascii (fst (hd kvs)) @ '': '' @ tv @ rest \<and>
        reads_value fparse tv (snd (hd kvs)) \<and> reads_object_rest fparse rest (tl kvs)))"
proof (induction frepr v and frepr buf vs and frepr first kvs arbitrary: t and t and t
    rule: iterencode_iterencode_list_iterencode_dict.induct)
  case (1 frepr s)
  then show ?case by (auto simp: string_reads)
next
  case (2 frepr)
  then show ?case by (auto simp: literal_reads)
next
  case (3 frepr b)
  then show ?case by (auto simp: literal_reads)
next
  case (4 frepr i)
  then show ?case by (auto simp: int_reads)
next
  case (5 frepr x)
  then show ?case by (auto simp: float_reads)
next
  case (6 frepr lst)
  show ?case
  proof (cases "lst = []")
    case True
    with 6 show ?thesis by (auto simp: literal_reads)
  next
    case False
    with 6 have enc: "iterencode_list frepr ''['' lst = (t, None)" and fin: "finite_vals lst"
      by auto
    from 6(1) [OF False enc fin "6.prems"(3)] False
    obtain tv rest where "t = ''['' @ tv @ rest" "reads_value fparse tv (hd lst)"
      "reads_array_rest fparse rest (tl lst)"
      by auto
    then have "reads_value fparse t (PList (hd lst # tl lst))"
      by (simp only: array_reads)
    with False show ?thesis by simp
  qed
next
  case (7 frepr dct)
  show ?case
  proof (cases "dct = []")
    case True
    with 7 show ?thesis by (auto simp: literal_reads)
  next
    case False
    with 7 obtain t' where enc: "iterencode_dict frepr True dct = (t', None)"
      and t: "t = CHR ''{'' # t'" and fin: "finite_items dct"
      by (auto split: prod.splits)
    from 7(1) [OF False enc fin "7.prems"(3)] False
    obtain tv rest where "t' = encode_basestring_ascii (fst (hd dct)) @ '': '' @ tv @ rest"
      "reads_value fparse tv (snd (hd dct))" "reads_object_rest fparse rest (tl dct)"
      by auto
    with t have "reads_value fparse t (PDict ((fst (hd dct), snd (hd dct)) # tl dct))"
      by (simp only: object_reads)
    with False show ?thesis by simp
  qed
next
  case (8 frepr)
  then show ?case by simp
next
  case (9 frepr buf)
  then show ?case by simp
next
  case (10 frepr buf v vs)
  from "10.prems"(1) obtain tv t2 where
    v: "iterencode frepr v = (tv, None)" and
    vs: "iterencode_list frepr '', '' vs = (t2, None)" and
    t: "t = buf @ tv @ t2"
    by (auto split: prod.splits option.splits)
  from "10.prems"(2) have fv: "finite_val v" and fvs: "finite_vals vs" by simp_all
  have "reads_value fparse tv v"
    by (rule 10(1) [OF v fv "10.prems"(3)])
  moreover have "(vs = [] \<longrightarrow> t2 = '']'') \<and>
     (vs \<noteq> [] \<longrightarrow> (\<exists>tv rest. t2 = '', '' @ tv @ rest \<and> reads_value fparse tv (hd vs) \<and>
        reads_array_rest fparse rest (tl vs)))"
    by (rule 10(2) [OF v [symmetric] refl vs fvs "10.prems"(3)])
  then have "reads_array_rest fparse t2 vs"
    by (rule reads_array_rest_of_list)
  ultimately show ?case using t by auto
next
  case (11 frepr first)
  then show ?case by simp
next
  case (12 frepr first k v kvs)
  from "12.prems"(1) obtain tv t2 where
    v: "iterencode frepr v = (tv, None)" and
    kvs: "iterencode_dict frepr False kvs = (t2, None)" and
    t: "t = (if first then [] else '', '') @ encode_basestring_ascii k @ '': '' @ tv @ t2"
    by (auto split: prod.splits option.splits)
  from "12.prems"(2) have fv: "finite_val v" and fkvs: "finite_items kvs" by simp_all
  have "reads_value fparse tv v"
    by (rule 12(1) [OF v fv "12.prems"(3)])
  moreover have "(kvs = [] \<longrightarrow> t2 = ''}'') \<and>
     (kvs \<noteq> [] \<longrightarrow> (\<exists>tv rest. t2 = (if False then [] else '', '') @
          encode_basestring_ascii (fst (hd kvs)) @ '': '' @ tv @ rest \<and>
        reads_value fparse tv (snd (hd kvs)) \<and> reads_object_rest fparse rest (tl kvs)))"
    by (rule 12(2) [OF v [symmetric] refl kvs fkvs "12.prems"(3)])
  then have "reads_object_rest fparse t2 kvs"
    by (rule reads_object_rest_of_dict)
  ultimately show ?case using t by auto
qed

lemma reads_value_json_read: "reads_value fparse t v \<Longrightarrow> json_read fparse t = Some v"
  using reads_value_run [of fparse t v "[]" None]
  by (auto simp: json_read_def pended_def)

lemma output_is_read_back:
  assumes "files w ''svm_param.joblib'' = Some bytes" and "unpickle bytes = Inr m"
    and "fst (convert_svm unpickle frepr w) = Inr ()"
    and "finite_model m" and "float_round_trip frepr fparse"
  shows "\<exists>written. files (snd (convert_svm unpickle frepr w)) ''svm_model.json'' = Some written \<and>
     json_read fparse written = Some (PDict (model_data m))"
proof (cases rule: run_cases [where w = w and unpickle = unpickle and frepr = frepr])
  case missing
  with assms(1) show ?thesis by simp
next
  case (unpickle_error bytes' e)
  with assms(1,2) show ?thesis by simp
next
  case (open_error bytes' m')
  with assms(3) show ?thesis by (simp add: run_open_error)
next
  case (dump_error bytes' m' written e)
  with assms(3) show ?thesis by (simp add: run_dump_error)
next
  case (success bytes' m' written)
  with assms(1,2) have m': "m' = m" by simp
  note enc = success(4) [unfolded m']
  have fin: "finite_val (PDict (model_data m))"
    using finite_model_data [OF assms(4)] by simp
  have "reads_value fparse written (PDict (model_data m))"
    by (rule reader_reads_encoder(1) [OF enc fin assms(5)])
  then have "json_read fparse written = Some (PDict (model_data m))"
    by (rule reads_value_json_read)
  moreover have "files (snd (convert_svm unpickle frepr w)) ''svm_model.json'' = Some written"
    using success by (simp add: run_success)
  ultimately show ?thesis by simp
qed

lemma float_round_trip_whole: "float_round_trip repr_whole parse_whole"
proof -
  have d: "c \<in> set (intstr i) \<Longrightarrow> c = CHR ''-'' \<or> is_digit c" for c i
    by (auto simp: intstr_def dest: show_nat_digits split: if_splits)
  have "takeWhile (\<lambda>c. c \<noteq> CHR ''.'') (intstr i @ ''.0'') = intstr i" for i
    using d [of "CHR ''.''" i] by (auto simp: takeWhile_append is_digit_def)
  then have "number_value parse_whole (repr_whole i) = PFloat (Finite i)" for i
    by (simp add: number_value_def repr_whole_def parse_whole_def read_int_intstr)
  then show ?thesis
    by (simp add: float_round_trip_def json_number_repr_whole)
qed

lemma output_of_example_run_is_read_back:
  "\<exists>written. files (snd (convert_svm example_unpickle repr_whole (example_world ''pickled model'' True))) ''svm_model.json'' = Some written \<and>
     json_read parse_whole written = Some (PDict (model_data example_model))"
proof -
  have h1: "files (example_world ''pickled model'' True) ''svm_param.joblib'' =
      Some ''pickled model''"
    by (simp add: example_world_def)
  have h2: "example_unpickle ''pickled model'' = Inr example_model"
    by (simp add: example_unpickle_def)
  have h3: "fst (convert_svm example_unpickle repr_whole (example_world ''pickled model'' True)) =
      Inr ()"
    by code_simp
  have h5: "finite_model example_model"
    by (simp add: finite_model_def example_model_def)
  show ?thesis
    by (rule output_is_read_back [where bytes = "''pickled model''" and fparse = parse_whole, OF h1 h2 h3 h5 float_round_trip_whole])
qed

lemma example_output_is_read_back:
  "files (snd (convert_svm example_unpickle repr_whole (example_world ''pickled model'' True)))
     ''svm_model.json'' =
     Some ''{\"support_vectors\": [[1.0, 2.0], [3.0, 4.0], [5.0, 6.0]], \"dual_coef\": [[1.0, -1.0, 1.0]], \"intercept\": [0.0], \"gamma\": \"scale\", \"C\": 1.0, \"kernel\": \"rbf\", \"support\": [0, 4, 7], \"n_support\": [2, 1]}'' \<and>
   json_read parse_whole
     ''{\"support_vectors\": [[1.0, 2.0], [3.0, 4.0], [5.0, 6.0]], \"dual_coef\": [[1.0, -1.0, 1.0]], \"intercept\": [0.0], \"gamma\": \"scale\", \"C\": 1.0, \"kernel\": \"rbf\", \"support\": [0, 4, 7], \"n_support\": [2, 1]}'' =
     Some (PDict (model_data example_model))"
  by code_simp

text \<open>
  Claim C3. The claim is that what is read from the file of every successful run are
  the values of the model. The script does not keep to it, for the reason it does not
  keep to C2: the run on the model whose intercept is a NaN succeeds, and the reader
  gets no value at all from the file it writes, since \<^verbatim>\<open>NaN\<close> is no JSON.
\<close>

theorem nan_output_is_not_read_back:
  "fst (convert_svm example_unpickle repr_whole
         (example_world ''pickled model, NaN intercept'' True)) = Inr () \<and>
   files (snd (convert_svm example_unpickle repr_whole
                (example_world ''pickled model, NaN intercept'' True))) ''svm_model.json'' =
     Some ''{\"support_vectors\": [[1.0, 2.0], [3.0, 4.0], [5.0, 6.0]], \"dual_coef\": [[1.0, -1.0, 1.0]], \"intercept\": [NaN], \"gamma\": \"scale\", \"C\": 1.0, \"kernel\": \"rbf\", \"support\": [0, 4, 7], \"n_support\": [2, 1]}'' \<and>
   json_read parse_whole
     ''{\"support_vectors\": [[1.0, 2.0], [3.0, 4.0], [5.0, 6.0]], \"dual_coef\": [[1.0, -1.0, 1.0]], \"intercept\": [NaN], \"gamma\": \"scale\", \"C\": 1.0, \"kernel\": \"rbf\", \"support\": [0, 4, 7], \"n_support\": [2, 1]}'' =
     None"
  by code_simp

end
